theory Spec2Isabelle
  imports Main
begin

section \<open>Route parameters of goyave: the data model\<close>

text \<open>
  The file \<^verbatim>\<open>parametrizeable.go\<close> turns a URI template such as \<^verbatim>\<open>/user/{id:[0-9]+}\<close>
  into a regular expression and a list of parameter names, and binds the names to the
  captured substrings of a match. A Go \<^verbatim>\<open>string\<close> is a sequence of bytes, and so is a
  HOL \<^typ>\<open>string\<close>; offsets are byte offsets, modelled as \<^typ>\<open>nat\<close>.

  Every \<^verbatim>\<open>panic\<close> and every returned \<^verbatim>\<open>error\<close> of the source is a value of the
  type below; the argument is the text the Go message quotes.
\<close>

datatype error =
    EmptyParameter string      \<comment> \<open>\<^verbatim>\<open>empty route parameter in %q\<close>\<close>
  | UnbalancedBraces string    \<comment> \<open>\<^verbatim>\<open>unbalanced braces in %q\<close>\<close>
  | MissingName string         \<comment> \<open>\<^verbatim>\<open>invalid route parameter, missing name in %q\<close>\<close>
  | MissingPattern string      \<comment> \<open>\<^verbatim>\<open>invalid route parameter, missing pattern in %q\<close>\<close>
  | CaptureGroups string       \<comment> \<open>\<^verbatim>\<open>route %s contains capture groups in its regexp\<close>\<close>
  | InvalidRegexp string       \<comment> \<open>the panic of \<^verbatim>\<open>regexp.MustCompile\<close>\<close>
  | OutOfRange                 \<comment> \<open>Go's run-time panic on a slice or an index out of range\<close>

text \<open>
  The struct \<^verbatim>\<open>parametrizeable\<close>. The field \<^verbatim>\<open>regex\<close> is a pointer, \<^verbatim>\<open>nil\<close> until
  a template has been compiled. The type \<^typ>\<open>'r\<close> is the type of compiled expressions of
  the regular-expression engine.
\<close>

record 'r parametrizeable =
  regex :: "'r option"
  parameters :: "string list"

text \<open>
  The package \<^verbatim>\<open>regexp\<close> of the Go standard library is not part of the repository. The
  functions the source calls are taken as a parameter: \<open>compile\<close> is
  \<^verbatim>\<open>regexp.Compile\<close> (\<open>None\<close> where \<^verbatim>\<open>MustCompile\<close> panics), \<open>numSubexp\<close> is
  \<^verbatim>\<open>(*Regexp).NumSubexp\<close>, and \<open>findStringSubmatch\<close> is
  \<^verbatim>\<open>(*Regexp).FindStringSubmatch\<close> (\<open>None\<close> for the \<^verbatim>\<open>nil\<close> slice of a failed match).
\<close>

record 'r engine =
  compile :: "string \<Rightarrow> 'r option"
  numSubexp :: "'r \<Rightarrow> nat"
  findStringSubmatch :: "'r \<Rightarrow> string \<Rightarrow> string list option"

section \<open>The brace scanner\<close>

text \<open>
  The loop of \<^verbatim>\<open>braceIndices\<close>, started at offset \<open>i\<close> with the values of the local
  variables \<^verbatim>\<open>level\<close>, \<^verbatim>\<open>idx\<close> and \<^verbatim>\<open>indices\<close>. The result is that of the whole
  function: the check after the loop is the last branch.
\<close>

function braceIndices_loop ::
  "string \<Rightarrow> nat \<Rightarrow> int \<Rightarrow> nat \<Rightarrow> nat list \<Rightarrow> error + nat list" where
  "braceIndices_loop s i level idx indices =
     (if i < length s then
        (if s ! i = CHR ''{'' then
           braceIndices_loop s (i + 1) (level + 1) (if level + 1 = 1 then i else idx) indices
         else if s ! i = CHR ''}'' then
           (if level - 1 = 0 then
              (if i = idx + 1 then Inl (EmptyParameter s)
               else braceIndices_loop s (i + 1) (level - 1) idx (indices @ [idx, i]))
            else if level - 1 < 0 then Inl (UnbalancedBraces s)
            else braceIndices_loop s (i + 1) (level - 1) idx indices)
         else braceIndices_loop s (i + 1) level idx indices)
      else if level \<noteq> 0 then Inl (UnbalancedBraces s)
      else Inr indices)"
  by pat_completeness auto
termination
  by (relation "measure (\<lambda>(s, i, level, idx, indices). length s - i)") auto

declare braceIndices_loop.simps [simp del]

definition braceIndices :: "string \<Rightarrow> error + nat list" where
  "braceIndices s = braceIndices_loop s 0 0 0 []"

section \<open>The pattern compiler\<close>

text \<open>
  Go's slice expression \<^verbatim>\<open>s[a:b]\<close> panics unless \<open>a \<le> b \<le> len(s)\<close>, and
  \<^verbatim>\<open>xs[i]\<close> panics unless \<open>i < len(xs)\<close>.
\<close>

definition slice :: "string \<Rightarrow> nat \<Rightarrow> nat \<Rightarrow> error + string" where
  "slice s a b = (if a \<le> b \<and> b \<le> length s then Inr (take (b - a) (drop a s)) else Inl OutOfRange)"

definition index :: "'a list \<Rightarrow> nat \<Rightarrow> error + 'a" where
  "index xs i = (if i < length xs then Inr (xs ! i) else Inl OutOfRange)"

text \<open>
  \<^verbatim>\<open>strings.SplitN(s, sep, n)\<close> for a separator of one byte: at most \<open>n\<close> pieces, the
  last one the unsplit rest; no piece at all for \<open>n = 0\<close>.
\<close>

fun SplitN :: "string \<Rightarrow> char \<Rightarrow> nat \<Rightarrow> string list" where
  "SplitN s sep 0 = []"
| "SplitN s sep (Suc 0) = [s]"
| "SplitN s sep (Suc (Suc n)) =
     (if sep \<in> set s
      then takeWhile (\<lambda>c. c \<noteq> sep) s # SplitN (tl (dropWhile (\<lambda>c. c \<noteq> sep) s)) sep (Suc n)
      else [s])"

text \<open>
  Lines 39 to 49: the body \<^verbatim>\<open>sub\<close> of one placeholder gives the parameter name and the
  pattern of its group. \<^verbatim>\<open>parts[0]\<close> exists, because \<^verbatim>\<open>SplitN\<close> with \<open>n = 2\<close> returns
  one or two pieces.
\<close>

definition placeholder :: "string \<Rightarrow> error + (string \<times> string)" where
  "placeholder sub =
     (let parts = SplitN sub CHR '':'' 2 in
      if parts ! 0 = [] then Inl (MissingName sub)
      else if length parts = 2 then
        (if parts ! 1 = [] then Inl (MissingPattern sub) else Inr (parts ! 0, parts ! 1))
      else Inr (parts ! 0, ''[^/]+''))"

text \<open>
  The loop of \<^verbatim>\<open>compileParameters\<close> over the index pairs, started at \<open>i\<close> with the values
  of \<^verbatim>\<open>end\<close>, of the builder and of \<^verbatim>\<open>p.parameters\<close>. It returns the three of them.
\<close>

function compile_loop ::
  "string \<Rightarrow> nat list \<Rightarrow> nat \<Rightarrow> nat \<Rightarrow> string \<Rightarrow> string list
     \<Rightarrow> error + (nat \<times> string \<times> string list)" where
  "compile_loop uri idxs i end builder params =
     (if i < length idxs then
        (case slice uri end (idxs ! i) of
           Inl e \<Rightarrow> Inl e
         | Inr raw \<Rightarrow>
           (case index idxs (i + 1) of
              Inl e \<Rightarrow> Inl e
            | Inr end' \<Rightarrow>
              (case slice uri (idxs ! i + 1) end' of
                 Inl e \<Rightarrow> Inl e
               | Inr sub \<Rightarrow>
                 (case placeholder sub of
                    Inl e \<Rightarrow> Inl e
                  | Inr (name, pattern) \<Rightarrow>
                      compile_loop uri idxs (i + 2) (end' + 1)
                        (builder @ raw @ ''('' @ pattern @ '')'') (params @ [name])))))
      else Inr (end, builder, params))"
  by pat_completeness auto
termination
  by (relation "measure (\<lambda>(uri, idxs, i, end, builder, params). length idxs - i)") auto

declare compile_loop.simps [simp del]

text \<open>
  Lines 20 to 65: the expression handed to the engine, and the parameter list after the
  loop. The source has one function; the model names its first part, so that the
  assembled expression can be spoken about.
\<close>

definition buildPattern ::
  "string list \<Rightarrow> string \<Rightarrow> bool \<Rightarrow> error + (nat list \<times> string \<times> string list)" where
  "buildPattern params0 uri ends =
     (case braceIndices uri of
        Inl err \<Rightarrow> Inl err
      | Inr idxs \<Rightarrow>
        (case (if length idxs > 0 then
                 (case compile_loop uri idxs 0 0 ''^'' params0 of
                    Inl e \<Rightarrow> Inl e
                  | Inr (end, builder, params) \<Rightarrow>
                    (case slice uri end (length uri) of
                       Inl e \<Rightarrow> Inl e
                     | Inr rest \<Rightarrow> Inr (builder @ rest, params)))
               else Inr (''^'' @ uri, params0)) of
           Inl e \<Rightarrow> Inl e
         | Inr (builder, params) \<Rightarrow>
             Inr (idxs, (if ends then builder @ ''$'' else builder), params)))"

definition compileParameters ::
  "'r engine \<Rightarrow> 'r parametrizeable \<Rightarrow> string \<Rightarrow> bool \<Rightarrow> error + 'r parametrizeable" where
  "compileParameters eng p uri ends =
     (case buildPattern (parameters p) uri ends of
        Inl e \<Rightarrow> Inl e
      | Inr (idxs, builder, params) \<Rightarrow>
        (case compile eng builder of
           None \<Rightarrow> Inl (InvalidRegexp builder)
         | Some r \<Rightarrow>
             if numSubexp eng r \<noteq> length idxs div 2 then Inl (CaptureGroups uri)
             else Inr (p\<lparr>regex := Some r, parameters := params\<rparr>)))"

section \<open>The parameter binder\<close>

text \<open>
  \<^verbatim>\<open>makeParameters\<close>: the loop \<^verbatim>\<open>for i, v := range match\<close> from index \<open>i\<close> with the map
  built so far. \<^verbatim>\<open>names[i]\<close> panics when \<open>i\<close> is not an index of \<^verbatim>\<open>names\<close>.
\<close>

function makeParameters_loop ::
  "string list \<Rightarrow> string list \<Rightarrow> nat \<Rightarrow> (string \<rightharpoonup> string) \<Rightarrow> error + (string \<rightharpoonup> string)" where
  "makeParameters_loop match names i params =
     (if i < length match then
        (case index names i of
           Inl e \<Rightarrow> Inl e
         | Inr name \<Rightarrow> makeParameters_loop match names (i + 1) (params(name \<mapsto> match ! i)))
      else Inr params)"
  by pat_completeness auto
termination
  by (relation "measure (\<lambda>(match, names, i, params). length match - i)") auto

declare makeParameters_loop.simps [simp del]

definition makeParameters :: "string list \<Rightarrow> string list \<Rightarrow> error + (string \<rightharpoonup> string)" where
  "makeParameters match names = makeParameters_loop match names 0 Map.empty"

text \<open>
  The map the loop of \<^verbatim>\<open>makeParameters\<close> has built after the positions \<open>i\<close> to \<open>n - 1\<close>,
  written as a fold: the closed form the loop is compared with.
\<close>

definition bind_range :: "string list \<Rightarrow> string list \<Rightarrow> nat \<Rightarrow> nat \<Rightarrow> (string \<rightharpoonup> string) \<Rightarrow> (string \<rightharpoonup> string)" where
  "bind_range match names i n params = fold (\<lambda>j m. m(names ! j \<mapsto> match ! j)) [i..<n] params"

section \<open>What the scanner is specified to find\<close>

text \<open>
  The nesting depth of \<open>s\<close> after its first \<open>i\<close> bytes: the opening braces minus the closing
  braces among them. It is a property of the string, not of the run of the scanner.
\<close>

definition brace_delta :: "char \<Rightarrow> int" where
  "brace_delta c = (if c = CHR ''{'' then 1 else if c = CHR ''}'' then - 1 else 0)"

definition depth :: "string \<Rightarrow> nat \<Rightarrow> int" where
  "depth s i = sum_list (map brace_delta (take i s))"

text \<open>The flat index list \<^verbatim>\<open>[open, close, open, close, ...]\<close> read as pairs.\<close>

fun pairs :: "nat list \<Rightarrow> (nat \<times> nat) list" where
  "pairs (a # b # xs) = (a, b) # pairs xs"
| "pairs xs = []"

text \<open>
  A first-level brace pair: an opening brace at depth zero and the first closing brace
  after it that brings the depth back to zero.
\<close>

definition first_level_pair :: "string \<Rightarrow> nat \<Rightarrow> nat \<Rightarrow> bool" where
  "first_level_pair s opn cls \<longleftrightarrow>
     opn < cls \<and> cls < length s \<and> s ! opn = CHR ''{'' \<and> s ! cls = CHR ''}'' \<and>
     depth s opn = 0 \<and> depth s (Suc cls) = 0 \<and> (\<forall>j \<in> {opn<..cls}. 0 < depth s j)"

text \<open>The offset \<open>j\<close> lies within one of the pairs, braces included.\<close>

definition covered :: "(nat \<times> nat) list \<Rightarrow> nat \<Rightarrow> bool" where
  "covered ps j \<longleftrightarrow> (\<exists>(opn, cls) \<in> set ps. opn \<le> j \<and> j \<le> cls)"

text \<open>
  The loop invariant of \<^verbatim>\<open>braceIndices\<close> before the byte at offset \<open>i\<close> is read: the
  counter is the depth, no depth so far was negative, the pending opening brace is the
  last one at depth zero, and the indices recorded are the first-level pairs closed so
  far, none of them empty.
\<close>

definition scan_inv :: "string \<Rightarrow> nat \<Rightarrow> int \<Rightarrow> nat \<Rightarrow> nat list \<Rightarrow> bool" where
  "scan_inv s i level idx indices \<longleftrightarrow>
     i \<le> length s \<and> level = depth s i \<and> (\<forall>j \<le> i. 0 \<le> depth s j) \<and>
     (0 < level \<longrightarrow> idx < i \<and> s ! idx = CHR ''{'' \<and> depth s idx = 0 \<and>
        (\<forall>j. idx < j \<and> j \<le> i \<longrightarrow> 0 < depth s j) \<and> (\<forall>x \<in> set indices. x < idx)) \<and>
     even (length indices) \<and> sorted_wrt (<) indices \<and> (\<forall>x \<in> set indices. x < i) \<and>
     set (pairs indices) = {(opn, cls). first_level_pair s opn cls \<and> cls < i} \<and>
     (\<forall>(opn, cls) \<in> set (pairs indices). opn + 1 < cls) \<and>
     (\<forall>j < i. s ! j = CHR ''{'' \<or> s ! j = CHR ''}'' \<longrightarrow>
        covered (pairs indices) j \<or> (0 < level \<and> idx \<le> j))"

text \<open>
  An empty first-level pair at \<open>opn\<close> that the scan reaches: no depth before it is
  negative.
\<close>

definition empty_pair_reached :: "string \<Rightarrow> nat \<Rightarrow> bool" where
  "empty_pair_reached s opn \<longleftrightarrow> first_level_pair s opn (Suc opn) \<and> (\<forall>j \<in> {..<opn}. 0 \<le> depth s j)"

text \<open>What the invariant gives for each result of the scanner.\<close>

definition scan_post :: "string \<Rightarrow> error + nat list \<Rightarrow> bool" where
  "scan_post s res =
     (case res of
        Inr r \<Rightarrow> (\<exists>idx. scan_inv s (length s) 0 idx r)
      | Inl e \<Rightarrow>
          e = UnbalancedBraces s \<and>
            ((\<exists>j \<le> length s. depth s j < 0) \<or> depth s (length s) \<noteq> 0) \<and>
            (\<forall>opn. \<not> empty_pair_reached s opn) \<or>
          e = EmptyParameter s \<and> (\<exists>opn. empty_pair_reached s opn))"

text \<open>The three conditions of failure, as properties of the input string.\<close>

definition depth_negative :: "string \<Rightarrow> bool" where
  "depth_negative s \<longleftrightarrow> (\<exists>j \<in> {..length s}. depth s j < 0)"

definition empty_pair :: "string \<Rightarrow> bool" where
  "empty_pair s \<longleftrightarrow> (\<exists>opn \<in> {..<length s}. first_level_pair s opn (Suc opn))"

section \<open>A regular-expression engine for concrete templates\<close>

text \<open>
  Modelled from the spec: the host matching engine (Go's package \<^verbatim>\<open>regexp\<close>) is not part
  of the repository. The spec names what the compiler hands to it: a start-of-string
  anchor, literal text, one capturing group per placeholder, the default pattern
  ``one or more characters excluding the path separator'', and an end-of-string anchor.
  The model below covers this fragment of the engine's syntax and nothing else:
  literal bytes, \<^verbatim>\<open>^\<close>, \<^verbatim>\<open>$\<close>, capturing groups \<^verbatim>\<open>( )\<close>, alternation \<^verbatim>\<open>|\<close>, bracket
  expressions \<^verbatim>\<open>[...]\<close> and \<^verbatim>\<open>[^...]\<close> of bytes and ranges, and the greedy postfix
  operators \<^verbatim>\<open>*\<close>, \<^verbatim>\<open>+\<close> and \<^verbatim>\<open>?\<close>. An expression outside the fragment is not compiled
  (\<open>None\<close>), so the model is used only for templates whose expression lies inside it.
  The theorems about \<open>compileParameters\<close> hold for every engine; this one supplies the
  concrete runs.
\<close>

datatype re =
    Eps
  | Lit char
  | Class bool "(char \<times> char) list"   \<comment> \<open>negated, and the ranges \<open>(lo, hi)\<close>\<close>
  | Bol
  | Eol
  | Cat re re
  | Alt re re
  | Star re
  | Plus re
  | Opt re
  | Group nat re                     \<comment> \<open>capturing group number \<open>n\<close>, counted from 1\<close>

text \<open>
  Modelled from the spec: a sequence of expressions and a choice between alternatives,
  as the parser of the engine builds them.
\<close>

fun seq_re :: "re list \<Rightarrow> re" where
  "seq_re [] = Eps"
| "seq_re [x] = x"
| "seq_re (x # xs) = Cat x (seq_re xs)"

fun alts_re :: "re list \<Rightarrow> re" where
  "alts_re [] = Eps"
| "alts_re [x] = x"
| "alts_re (x # xs) = Alt x (alts_re xs)"

text \<open>Modelled from the spec: where the parser is, outside or inside a bracket expression.\<close>

datatype mode =
    Normal
  | ClassOpen                                   \<comment> \<open>after \<^verbatim>\<open>[\<close>\<close>
  | ClassFirst bool                             \<comment> \<open>the next byte is the first of the class\<close>
  | InClass bool "(char \<times> char) list" bool      \<comment> \<open>the last flag: a \<^verbatim>\<open>-\<close> is pending\<close>

text \<open>
  Modelled from the spec: the parser of the engine reads the expression byte by byte. Its state: the enclosing groups, each
  with the alternatives and the sequence that were open when its parenthesis was read;
  the alternatives and the reversed sequence of the innermost open group; the number of
  groups opened so far.
\<close>

record pstate =
  stack :: "(re list \<times> re list \<times> nat) list"
  alts :: "re list"
  sq :: "re list"
  groups :: nat
  md :: mode

text \<open>
  Modelled from the spec: a postfix operator applies to the last expression of the
  sequence; the fragment has no operator on an operator or on an anchor.
\<close>

definition is_repeat :: "re \<Rightarrow> bool" where
  "is_repeat r = (case r of Star _ \<Rightarrow> True | Plus _ \<Rightarrow> True | Opt _ \<Rightarrow> True
                  | Bol \<Rightarrow> True | Eol \<Rightarrow> True | _ \<Rightarrow> False)"

definition postfix :: "(re \<Rightarrow> re) \<Rightarrow> pstate \<Rightarrow> pstate option" where
  "postfix f st =
     (case sq st of
        [] \<Rightarrow> None
      | x # xs \<Rightarrow> if is_repeat x then None else Some (st\<lparr>sq := f x # xs\<rparr>))"

text \<open>
  Modelled from the spec: one byte inside a bracket expression, a single byte or the
  upper end of a range; escapes and named classes are outside the fragment.
\<close>

definition class_byte :: "bool \<Rightarrow> (char \<times> char) list \<Rightarrow> bool \<Rightarrow> char \<Rightarrow> mode option" where
  "class_byte neg items dash c =
     (if c = CHR 0x5C \<or> c = CHR ''['' then None
      else if dash then
        (case rev items of
           [] \<Rightarrow> None
         | (lo, hi) # earlier \<Rightarrow>
             if lo = hi \<and> (of_char lo :: nat) \<le> of_char c
             then Some (InClass neg (rev earlier @ [(lo, c)]) False)
             else None)
      else if c = CHR ''-'' then Some (InClass neg items True)
      else Some (InClass neg (items @ [(c, c)]) False))"

text \<open>Modelled from the spec: one byte of the expression.\<close>

definition parse_step :: "char \<Rightarrow> pstate \<Rightarrow> pstate option" where
  "parse_step c st =
     (case md st of
        ClassOpen \<Rightarrow>
          if c = CHR ''^'' then Some (st\<lparr>md := ClassFirst True\<rparr>)
          else if c = CHR 0x5C \<or> c = CHR ''['' then None
          else Some (st\<lparr>md := InClass False [(c, c)] False\<rparr>)
      | ClassFirst neg \<Rightarrow>
          if c = CHR 0x5C \<or> c = CHR ''['' then None
          else Some (st\<lparr>md := InClass neg [(c, c)] False\<rparr>)
      | InClass neg items dash \<Rightarrow>
          if c = CHR '']'' then
            Some (st\<lparr>sq := Class neg (if dash then items @ [(CHR ''-'', CHR ''-'')] else items) # sq st,
                     md := Normal\<rparr>)
          else map_option (\<lambda>m. st\<lparr>md := m\<rparr>) (class_byte neg items dash c)
      | Normal \<Rightarrow>
          if c = CHR ''('' then
            Some (st\<lparr>stack := (alts st, sq st, Suc (groups st)) # stack st,
                     alts := [], sq := [], groups := Suc (groups st)\<rparr>)
          else if c = CHR '')'' then
            (case stack st of
               [] \<Rightarrow> None
             | (alts0, sq0, g) # rest \<Rightarrow>
                 Some (st\<lparr>stack := rest, alts := alts0,
                          sq := Group g (alts_re (alts st @ [seq_re (rev (sq st))])) # sq0\<rparr>))
          else if c = CHR ''|'' then Some (st\<lparr>alts := alts st @ [seq_re (rev (sq st))], sq := []\<rparr>)
          else if c = CHR ''*'' then postfix Star st
          else if c = CHR ''+'' then postfix Plus st
          else if c = CHR ''?'' then postfix Opt st
          else if c = CHR ''['' then Some (st\<lparr>md := ClassOpen\<rparr>)
          else if c = CHR ''^'' then Some (st\<lparr>sq := Bol # sq st\<rparr>)
          else if c = CHR ''$'' then Some (st\<lparr>sq := Eol # sq st\<rparr>)
          else if c = CHR 0x5C \<or> c = CHR ''.'' \<or> c = CHR ''{'' \<or> c = CHR ''}'' \<or> c = CHR '']''
            then None
          else Some (st\<lparr>sq := Lit c # sq st\<rparr>))"

fun parse_bytes :: "string \<Rightarrow> pstate \<Rightarrow> pstate option" where
  "parse_bytes [] st = Some st"
| "parse_bytes (c # cs) st = (case parse_step c st of None \<Rightarrow> None | Some st' \<Rightarrow> parse_bytes cs st')"

text \<open>
  Modelled from the spec: \<^verbatim>\<open>regexp.Compile\<close>. A compiled expression is its syntax tree
  with the number of its capturing groups, which is what \<^verbatim>\<open>NumSubexp\<close> returns.
\<close>

definition re_compile :: "string \<Rightarrow> (re \<times> nat) option" where
  "re_compile pat =
     (case parse_bytes pat \<lparr>stack = [], alts = [], sq = [], groups = 0, md = Normal\<rparr> of
        None \<Rightarrow> None
      | Some st \<Rightarrow>
          if stack st = [] \<and> md st = Normal
          then Some (alts_re (alts st @ [seq_re (rev (sq st))]), groups st)
          else None)"

text \<open>
  Modelled from the spec: matching by backtracking, that is all the ways in which an expression matches from offset
  \<open>p\<close>, as end offsets with the groups captured, the preferred way first. A repetition
  prefers one more round, and a round must consume input.
\<close>

definition in_ranges :: "char \<Rightarrow> (char \<times> char) list \<Rightarrow> bool" where
  "in_ranges c rs = (\<exists>(lo, hi) \<in> set rs. (of_char lo :: nat) \<le> of_char c \<and> (of_char c :: nat) \<le> of_char hi)"

type_synonym caps = "(nat \<times> nat) option list"

fun rounds :: "nat \<Rightarrow> (nat \<Rightarrow> caps \<Rightarrow> (nat \<times> caps) list) \<Rightarrow> nat \<Rightarrow> caps \<Rightarrow> (nat \<times> caps) list" where
  "rounds 0 f p c = [(p, c)]"
| "rounds (Suc n) f p c =
     concat (map (\<lambda>(q, c'). if p < q then rounds n f q c' else []) (f p c)) @ [(p, c)]"

primrec match_re :: "re \<Rightarrow> string \<Rightarrow> nat \<Rightarrow> caps \<Rightarrow> (nat \<times> caps) list" where
  "match_re Eps s p c = [(p, c)]"
| "match_re (Lit x) s p c = (if p < length s \<and> s ! p = x then [(Suc p, c)] else [])"
| "match_re (Class neg rs) s p c =
     (if p < length s \<and> (in_ranges (s ! p) rs \<noteq> neg) then [(Suc p, c)] else [])"
| "match_re Bol s p c = (if p = 0 then [(p, c)] else [])"
| "match_re Eol s p c = (if p = length s then [(p, c)] else [])"
| "match_re (Cat a b) s p c = concat (map (\<lambda>(q, c'). match_re b s q c') (match_re a s p c))"
| "match_re (Alt a b) s p c = match_re a s p c @ match_re b s p c"
| "match_re (Star a) s p c = rounds (length s) (match_re a s) p c"
| "match_re (Plus a) s p c =
     concat (map (\<lambda>(q, c'). rounds (length s) (match_re a s) q c') (match_re a s p c))"
| "match_re (Opt a) s p c = match_re a s p c @ [(p, c)]"
| "match_re (Group n a) s p c = map (\<lambda>(q, c'). (q, c'[n - 1 := Some (p, q)])) (match_re a s p c)"

text \<open>
  Modelled from the spec: \<^verbatim>\<open>FindStringSubmatch\<close>, the leftmost match, as the text of the whole match followed by
  the text of each group (empty for a group that took no part).
\<close>

fun find_from :: "re \<times> nat \<Rightarrow> string \<Rightarrow> nat list \<Rightarrow> string list option" where
  "find_from r s [] = None"
| "find_from r s (p # ps) =
     (case match_re (fst r) s p (replicate (snd r) None) of
        [] \<Rightarrow> find_from r s ps
      | (q, c) # _ \<Rightarrow>
          Some (take (q - p) (drop p s) #
                map (\<lambda>g. case g of None \<Rightarrow> [] | Some (a, b) \<Rightarrow> take (b - a) (drop a s)) c))"

definition re_find :: "re \<times> nat \<Rightarrow> string \<Rightarrow> string list option" where
  "re_find r s = find_from r s [0..<Suc (length s)]"

text \<open>Modelled from the spec: the three functions of the engine, for the fragment.\<close>

definition fragment_engine :: "(re \<times> nat) engine" where
  "fragment_engine = \<lparr>compile = re_compile, numSubexp = snd, findStringSubmatch = re_find\<rparr>"

text \<open>
  Modelled from the spec: the caller of \<^verbatim>\<open>makeParameters\<close> (the route matching of the
  router) is not among the source files. After the data flow of the spec, the request path
  is evaluated against the compiled pattern; a failed match selects nothing, and of a
  successful one the captured substrings, the whole match at index 0 stripped, go to the
  binder together with the parameter names.
\<close>

definition match_path ::
  "'r engine \<Rightarrow> 'r parametrizeable \<Rightarrow> string \<Rightarrow> (error + (string \<rightharpoonup> string)) option" where
  "match_path eng p path =
     (case regex p of
        None \<Rightarrow> None
      | Some r \<Rightarrow>
        (case findStringSubmatch eng r path of
           None \<Rightarrow> None
         | Some m \<Rightarrow> Some (makeParameters (tl m) (parameters p))))"

section \<open>What the compiler is specified to produce\<close>

text \<open>
  The definitions of this section follow the words of the specification, not the loop
  of the source; the theorems compare the two. The body of a placeholder is the text
  between the braces of its pair.
\<close>

definition body :: "string \<Rightarrow> nat \<times> nat \<Rightarrow> string" where
  "body uri pr = take (snd pr - Suc (fst pr)) (drop (Suc (fst pr)) uri)"

text \<open>The name of a placeholder: its body up to the first colon, or all of it.\<close>

definition param_name :: "string \<Rightarrow> string" where
  "param_name b = takeWhile (\<lambda>c. c \<noteq> CHR '':'') b"

text \<open>
  The pattern of its group: the text after the first colon if there is a colon, and the
  default ``one or more characters excluding the path separator'' otherwise.
\<close>

definition group_pattern :: "string \<Rightarrow> string" where
  "group_pattern b =
     (if CHR '':'' \<in> set b then tl (dropWhile (\<lambda>c. c \<noteq> CHR '':'') b) else ''[^/]+'')"

text \<open>
  The expression after the start anchor, from offset \<open>e\<close> of the template: for each
  placeholder the literal text before it, unchanged, and one group; then the text after
  the last placeholder.
\<close>

fun assemble :: "string \<Rightarrow> nat \<Rightarrow> (nat \<times> nat) list \<Rightarrow> string" where
  "assemble uri e [] = drop e uri"
| "assemble uri e (pr # prs) =
     take (fst pr - e) (drop e uri) @ ''('' @ group_pattern (body uri pr) @ '')'' @
     assemble uri (Suc (snd pr)) prs"

text \<open>The placeholders are checked in the order of the template; the first error ends the check.\<close>

fun check_bodies :: "string list \<Rightarrow> error + (string \<times> string) list" where
  "check_bodies [] = Inr []"
| "check_bodies (b # bs) =
     (case placeholder b of
        Inl e \<Rightarrow> Inl e
      | Inr np \<Rightarrow> (case check_bodies bs of Inl e \<Rightarrow> Inl e | Inr nps \<Rightarrow> Inr (np # nps)))"

section \<open>The grammar of templates\<close>

text \<open>
  A placeholder body is well formed when its name, the text before the first colon, is
  not empty, and its subpattern, if there is a colon, is not empty either.
\<close>

definition placeholder_ok :: "string \<Rightarrow> bool" where
  "placeholder_ok b \<longleftrightarrow>
     param_name b \<noteq> [] \<and> (CHR '':'' \<in> set b \<longrightarrow> tl (dropWhile (\<lambda>c. c \<noteq> CHR '':'') b) \<noteq> [])"

text \<open>
  The grammar as the specification writes it: a template is a sequence of literals
  without braces and of placeholders, and a placeholder ends at the first closing brace
  after its opening brace, since neither its name nor its subpattern contains one.
\<close>

function spec_template :: "string \<Rightarrow> bool" where
  "spec_template [] = True"
| "spec_template (c # cs) =
     (if c = CHR ''{'' then
        dropWhile (\<lambda>x. x \<noteq> CHR ''}'') cs \<noteq> [] \<and>
        placeholder_ok (takeWhile (\<lambda>x. x \<noteq> CHR ''}'') cs) \<and>
        spec_template (tl (dropWhile (\<lambda>x. x \<noteq> CHR ''}'') cs))
      else if c = CHR ''}'' then False
      else spec_template cs)"
  by pat_completeness auto
termination
proof (relation "measure length")
  fix c :: char and cs :: string
  have "length (tl (dropWhile (\<lambda>x. x \<noteq> CHR ''}'') cs)) \<le> length cs"
    using length_dropWhile_le [of "\<lambda>x. x \<noteq> CHR ''}''" cs] by simp
  then show "(tl (dropWhile (\<lambda>x. x \<noteq> CHR ''}'') cs), c # cs) \<in> measure length" by simp
qed simp_all

text \<open>
  The offset, in the text after an opening brace, of the closing brace that matches it:
  \<open>d\<close> is the number of braces open before the text.
\<close>

fun matching :: "string \<Rightarrow> int \<Rightarrow> nat option" where
  "matching [] d = None"
| "matching (c # cs) d =
     (if c = CHR ''}'' then (if d = 1 then Some 0 else map_option Suc (matching cs (d - 1)))
      else if c = CHR ''{'' then map_option Suc (matching cs (d + 1))
      else map_option Suc (matching cs d))"

text \<open>
  The grammar the scanner and the compiler accept: a placeholder ends at the closing
  brace that matches its opening brace, so that its body may contain braces, balanced.
\<close>

function nested_template :: "string \<Rightarrow> bool" where
  "nested_template [] = True"
| "nested_template (c # cs) =
     (if c = CHR ''{'' then
        (case matching cs 1 of
           None \<Rightarrow> False
         | Some n \<Rightarrow> placeholder_ok (take n cs) \<and> nested_template (drop (Suc n) cs))
      else if c = CHR ''}'' then False
      else nested_template cs)"
  by pat_completeness auto
termination
  by (relation "measure length") auto

section \<open>Properties of the brace scanner\<close>

lemma depth_0 [simp]: "depth s 0 = 0"
  by (simp add: depth_def)

lemma depth_Suc: "i < length s \<Longrightarrow> depth s (Suc i) = depth s i + brace_delta (s ! i)"
  by (simp add: depth_def take_Suc_conv_app_nth)

lemma depth_open: "i < length s \<Longrightarrow> s ! i = CHR ''{'' \<Longrightarrow> depth s (Suc i) = depth s i + 1"
  by (simp add: depth_Suc brace_delta_def)

lemma depth_close: "i < length s \<Longrightarrow> s ! i = CHR ''}'' \<Longrightarrow> depth s (Suc i) = depth s i - 1"
  by (simp add: depth_Suc brace_delta_def)

lemma depth_other:
  "i < length s \<Longrightarrow> s ! i \<noteq> CHR ''{'' \<Longrightarrow> s ! i \<noteq> CHR ''}'' \<Longrightarrow> depth s (Suc i) = depth s i"
  by (simp add: depth_Suc brace_delta_def)

lemma pairs_append:
  "even (length xs) \<Longrightarrow> pairs (xs @ [a, b]) = pairs xs @ [(a, b)]"
  by (induction xs rule: pairs.induct) auto

lemma length_pairs: "length (pairs xs) = length xs div 2"
  by (induction xs rule: pairs.induct) auto

lemma braceIndices_loop_end:
  "\<not> i < length s \<Longrightarrow>
   braceIndices_loop s i level idx indices =
     (if level \<noteq> 0 then Inl (UnbalancedBraces s) else Inr indices)"
  by (subst braceIndices_loop.simps) simp

lemma braceIndices_loop_open:
  "i < length s \<Longrightarrow> s ! i = CHR ''{'' \<Longrightarrow>
   braceIndices_loop s i level idx indices =
     braceIndices_loop s (Suc i) (level + 1) (if level = 0 then i else idx) indices"
  by (subst braceIndices_loop.simps) simp

lemma braceIndices_loop_pair:
  "i < length s \<Longrightarrow> s ! i = CHR ''}'' \<Longrightarrow> level = 1 \<Longrightarrow> i \<noteq> Suc idx \<Longrightarrow>
   braceIndices_loop s i level idx indices =
     braceIndices_loop s (Suc i) 0 idx (indices @ [idx, i])"
  by (subst braceIndices_loop.simps) simp

lemma braceIndices_loop_empty:
  "i < length s \<Longrightarrow> s ! i = CHR ''}'' \<Longrightarrow> level = 1 \<Longrightarrow> i = Suc idx \<Longrightarrow>
   braceIndices_loop s i level idx indices = Inl (EmptyParameter s)"
  by (subst braceIndices_loop.simps) simp

lemma braceIndices_loop_negative:
  "i < length s \<Longrightarrow> s ! i = CHR ''}'' \<Longrightarrow> level < 1 \<Longrightarrow>
   braceIndices_loop s i level idx indices = Inl (UnbalancedBraces s)"
  by (subst braceIndices_loop.simps) simp

lemma braceIndices_loop_close:
  "i < length s \<Longrightarrow> s ! i = CHR ''}'' \<Longrightarrow> 1 < level \<Longrightarrow>
   braceIndices_loop s i level idx indices = braceIndices_loop s (Suc i) (level - 1) idx indices"
  by (subst braceIndices_loop.simps) simp

lemma braceIndices_loop_other:
  "i < length s \<Longrightarrow> s ! i \<noteq> CHR ''{'' \<Longrightarrow> s ! i \<noteq> CHR ''}'' \<Longrightarrow>
   braceIndices_loop s i level idx indices = braceIndices_loop s (Suc i) level idx indices"
  by (subst braceIndices_loop.simps) simp

lemma scan_inv_start: "scan_inv s 0 0 0 []"
  by (simp add: scan_inv_def)

lemma scan_inv_keep_pairs:
  assumes "\<And>opn. \<not> first_level_pair s opn i"
  shows "{(opn, cls). first_level_pair s opn cls \<and> cls < Suc i} =
         {(opn, cls). first_level_pair s opn cls \<and> cls < i}"
  using assms by (auto simp: less_Suc_eq)

lemma scan_inv_open:
  assumes inv: "scan_inv s i level idx indices" and i: "i < length s" and c: "s ! i = CHR ''{''"
  shows "scan_inv s (Suc i) (level + 1) (if level = 0 then i else idx) indices"
proof -
  have d: "depth s (Suc i) = depth s i + 1" by (rule depth_open [OF i c])
  have np: "\<not> first_level_pair s opn i" for opn
    using c by (simp add: first_level_pair_def)
  note keep = scan_inv_keep_pairs [of s i, OF np]
  from inv have lv: "level = depth s i" "0 \<le> level" by (auto simp: scan_inv_def)
  show ?thesis
    unfolding scan_inv_def
  proof (intro conjI)
    show "Suc i \<le> length s" using i by simp
    show "level + 1 = depth s (Suc i)" using lv d by simp
    show "\<forall>j\<le>Suc i. 0 \<le> depth s j" using inv d by (auto simp: scan_inv_def le_Suc_eq)
    show "0 < level + 1 \<longrightarrow> (if level = 0 then i else idx) < Suc i \<and>
        s ! (if level = 0 then i else idx) = CHR ''{'' \<and>
        depth s (if level = 0 then i else idx) = 0 \<and>
        (\<forall>j. (if level = 0 then i else idx) < j \<and> j \<le> Suc i \<longrightarrow> 0 < depth s j) \<and>
        (\<forall>x\<in>set indices. x < (if level = 0 then i else idx))"
      using inv d c lv by (auto simp: scan_inv_def le_Suc_eq)
    show "even (length indices)" "sorted_wrt (<) indices" using inv by (auto simp: scan_inv_def)
    show "\<forall>x\<in>set indices. x < Suc i" using inv by (auto simp: scan_inv_def less_Suc_eq)
    show "set (pairs indices) = {(opn, cls). first_level_pair s opn cls \<and> cls < Suc i}"
      using inv by (simp only: keep) (simp add: scan_inv_def)
    show "\<forall>(opn, cls)\<in>set (pairs indices). opn + 1 < cls" using inv by (simp add: scan_inv_def)
    show "\<forall>j<Suc i. s ! j = CHR ''{'' \<or> s ! j = CHR ''}'' \<longrightarrow>
        covered (pairs indices) j \<or> 0 < level + 1 \<and> (if level = 0 then i else idx) \<le> j"
      using inv lv by (auto simp: scan_inv_def less_Suc_eq)
  qed
qed


lemma scan_inv_other:
  assumes inv: "scan_inv s i level idx indices" and i: "i < length s"
    and c: "s ! i \<noteq> CHR ''{''" "s ! i \<noteq> CHR ''}''"
  shows "scan_inv s (Suc i) level idx indices"
proof -
  have d: "depth s (Suc i) = depth s i" by (rule depth_other [OF i c])
  have np: "\<not> first_level_pair s opn i" for opn
    using c by (simp add: first_level_pair_def)
  note keep = scan_inv_keep_pairs [of s i, OF np]
  from inv have lv: "level = depth s i" by (auto simp: scan_inv_def)
  show ?thesis
    unfolding scan_inv_def
  proof (intro conjI)
    show "Suc i \<le> length s" using i by simp
    show "level = depth s (Suc i)" using lv d by simp
    show "\<forall>j\<le>Suc i. 0 \<le> depth s j" using inv d by (auto simp: scan_inv_def le_Suc_eq)
    show "0 < level \<longrightarrow> idx < Suc i \<and> s ! idx = CHR ''{'' \<and> depth s idx = 0 \<and>
        (\<forall>j. idx < j \<and> j \<le> Suc i \<longrightarrow> 0 < depth s j) \<and> (\<forall>x\<in>set indices. x < idx)"
      using inv d lv by (auto simp: scan_inv_def le_Suc_eq)
    show "even (length indices)" "sorted_wrt (<) indices" using inv by (auto simp: scan_inv_def)
    show "\<forall>x\<in>set indices. x < Suc i" using inv by (auto simp: scan_inv_def less_Suc_eq)
    show "set (pairs indices) = {(opn, cls). first_level_pair s opn cls \<and> cls < Suc i}"
      using inv by (simp only: keep) (simp add: scan_inv_def)
    show "\<forall>(opn, cls)\<in>set (pairs indices). opn + 1 < cls" using inv by (simp add: scan_inv_def)
    show "\<forall>j<Suc i. s ! j = CHR ''{'' \<or> s ! j = CHR ''}'' \<longrightarrow>
        covered (pairs indices) j \<or> 0 < level \<and> idx \<le> j"
      using inv c by (auto simp: scan_inv_def less_Suc_eq)
  qed
qed

lemma scan_inv_close:
  assumes inv: "scan_inv s i level idx indices" and i: "i < length s"
    and c: "s ! i = CHR ''}''" and l: "1 < level"
  shows "scan_inv s (Suc i) (level - 1) idx indices"
proof -
  have d: "depth s (Suc i) = depth s i - 1" by (rule depth_close [OF i c])
  from inv have lv: "level = depth s i" by (auto simp: scan_inv_def)
  have np: "\<not> first_level_pair s opn i" for opn
    using d lv l by (simp add: first_level_pair_def)
  note keep = scan_inv_keep_pairs [of s i, OF np]
  show ?thesis
    unfolding scan_inv_def
  proof (intro conjI)
    show "Suc i \<le> length s" using i by simp
    show "level - 1 = depth s (Suc i)" using lv d by simp
    show "\<forall>j\<le>Suc i. 0 \<le> depth s j" using inv d lv l by (auto simp: scan_inv_def le_Suc_eq)
    show "0 < level - 1 \<longrightarrow> idx < Suc i \<and> s ! idx = CHR ''{'' \<and> depth s idx = 0 \<and>
        (\<forall>j. idx < j \<and> j \<le> Suc i \<longrightarrow> 0 < depth s j) \<and> (\<forall>x\<in>set indices. x < idx)"
      using inv d lv l by (auto simp: scan_inv_def le_Suc_eq)
    show "even (length indices)" "sorted_wrt (<) indices" using inv by (auto simp: scan_inv_def)
    show "\<forall>x\<in>set indices. x < Suc i" using inv by (auto simp: scan_inv_def less_Suc_eq)
    show "set (pairs indices) = {(opn, cls). first_level_pair s opn cls \<and> cls < Suc i}"
      using inv by (simp only: keep) (simp add: scan_inv_def)
    show "\<forall>(opn, cls)\<in>set (pairs indices). opn + 1 < cls" using inv by (simp add: scan_inv_def)
    show "\<forall>j<Suc i. s ! j = CHR ''{'' \<or> s ! j = CHR ''}'' \<longrightarrow>
        covered (pairs indices) j \<or> 0 < level - 1 \<and> idx \<le> j"
      using inv l by (auto simp: scan_inv_def less_Suc_eq)
  qed
qed

lemma pending_is_first_level_pair:
  assumes inv: "scan_inv s i 1 idx indices" and i: "i < length s" and c: "s ! i = CHR ''}''"
  shows "first_level_pair s idx i"
proof -
  have d: "depth s (Suc i) = depth s i - 1" by (rule depth_close [OF i c])
  from inv have "depth s i = 1" "idx < i" "s ! idx = CHR ''{''" "depth s idx = 0"
    "\<forall>j. idx < j \<and> j \<le> i \<longrightarrow> 0 < depth s j"
    by (auto simp: scan_inv_def)
  with d i c show ?thesis by (auto simp: first_level_pair_def)
qed

lemma first_level_pair_open_unique:
  assumes "first_level_pair s a c" "first_level_pair s b c"
  shows "a = b"
proof (rule ccontr)
  assume ne: "a \<noteq> b"
  from assms have a: "a < c" "depth s a = 0" "\<forall>j \<in> {a<..c}. 0 < depth s j"
    and b: "b < c" "depth s b = 0" "\<forall>j \<in> {b<..c}. 0 < depth s j"
    by (auto simp: first_level_pair_def)
  from ne consider "a < b" | "b < a" by arith
  then show False
  proof cases
    case 1
    with b(1) a(3) have "0 < depth s b" by auto
    with b(2) show False by simp
  next
    case 2
    with a(1) b(3) have "0 < depth s a" by auto
    with a(2) show False by simp
  qed
qed

lemma scan_inv_pair:
  assumes inv: "scan_inv s i 1 idx indices" and i: "i < length s"
    and c: "s ! i = CHR ''}''" and ne: "i \<noteq> Suc idx"
  shows "scan_inv s (Suc i) 0 idx (indices @ [idx, i])"
proof -
  have d: "depth s (Suc i) = depth s i - 1" by (rule depth_close [OF i c])
  from inv have lv: "depth s i = 1" by (auto simp: scan_inv_def)
  have p: "first_level_pair s idx i" by (rule pending_is_first_level_pair [OF inv i c])
  from inv have ev: "even (length indices)" and lt: "idx < i" and below: "\<forall>x\<in>set indices. x < idx"
    and srt: "sorted_wrt (<) indices"
    by (auto simp: scan_inv_def)
  have ps: "pairs (indices @ [idx, i]) = pairs indices @ [(idx, i)]"
    by (rule pairs_append [OF ev])
  have new: "{(opn, cls). first_level_pair s opn cls \<and> cls < Suc i} =
      insert (idx, i) {(opn, cls). first_level_pair s opn cls \<and> cls < i}"
  proof -
    have "first_level_pair s a c \<and> c < Suc i \<longleftrightarrow>
        (a, c) = (idx, i) \<or> first_level_pair s a c \<and> c < i" for a c
    proof (cases "c = i")
      case True
      have "first_level_pair s a i \<longleftrightarrow> a = idx"
        using p first_level_pair_open_unique [of s a i idx] by blast
      with True show ?thesis by simp
    next
      case False
      then show ?thesis by (simp add: less_Suc_eq)
    qed
    then show ?thesis by blast
  qed
  show ?thesis
    unfolding scan_inv_def
  proof (intro conjI)
    show "Suc i \<le> length s" using i by simp
    show "0 = depth s (Suc i)" using lv d by simp
    show "\<forall>j\<le>Suc i. 0 \<le> depth s j" using inv d lv by (auto simp: scan_inv_def le_Suc_eq)
    show "0 < (0::int) \<longrightarrow> idx < Suc i \<and> s ! idx = CHR ''{'' \<and> depth s idx = 0 \<and>
        (\<forall>j. idx < j \<and> j \<le> Suc i \<longrightarrow> 0 < depth s j) \<and> (\<forall>x\<in>set (indices @ [idx, i]). x < idx)"
      by simp
    show "even (length (indices @ [idx, i]))" using ev by simp
    show "sorted_wrt (<) (indices @ [idx, i])"
      using srt below lt by (auto simp: sorted_wrt_append)
    show "\<forall>x\<in>set (indices @ [idx, i]). x < Suc i" using below lt by auto
    show "set (pairs (indices @ [idx, i])) = {(opn, cls). first_level_pair s opn cls \<and> cls < Suc i}"
      using inv by (simp only: new ps) (simp add: scan_inv_def)
    show "\<forall>(opn, cls)\<in>set (pairs (indices @ [idx, i])). opn + 1 < cls"
      using inv lt ne by (auto simp: scan_inv_def ps)
    show "\<forall>j<Suc i. s ! j = CHR ''{'' \<or> s ! j = CHR ''}'' \<longrightarrow>
        covered (pairs (indices @ [idx, i])) j \<or> 0 < (0::int) \<and> idx \<le> j"
      using inv lt by (auto simp: scan_inv_def ps covered_def less_Suc_eq)
  qed
qed


lemma empty_pair_depths:
  assumes "empty_pair_reached s opn" "j \<le> Suc (Suc opn)"
  shows "0 \<le> depth s j"
proof -
  from assms(1) have p: "first_level_pair s opn (Suc opn)" and b: "\<forall>j \<in> {..<opn}. 0 \<le> depth s j"
    by (simp_all add: empty_pair_reached_def)
  from p have d0: "depth s opn = 0" and d2: "depth s (Suc (Suc opn)) = 0"
    and pos: "\<forall>j \<in> {opn<..Suc opn}. 0 < depth s j"
    unfolding first_level_pair_def by blast+
  from pos have d1: "0 < depth s (Suc opn)" by simp
  from assms(2) consider "j < opn" | "j = opn" | "j = Suc opn" | "j = Suc (Suc opn)"
    by arith
  then show ?thesis
  proof cases
    case 1
    with b show ?thesis by simp
  next
    case 2
    with d0 show ?thesis by simp
  next
    case 3
    with d1 show ?thesis by simp
  next
    case 4
    with d2 show ?thesis by simp
  qed
qed

lemma scan_inv_no_empty_before:
  assumes inv: "scan_inv s i level idx indices" and p: "first_level_pair s opn (Suc opn)"
  shows "i \<le> Suc opn"
proof (rule ccontr)
  assume "\<not> i \<le> Suc opn"
  then have "Suc opn < i" by simp
  with p inv have "(opn, Suc opn) \<in> set (pairs indices)" by (simp add: scan_inv_def)
  moreover from inv have "\<forall>(a, b) \<in> set (pairs indices). a + 1 < b" by (simp add: scan_inv_def)
  ultimately show False by auto
qed

lemma braceIndices_loop_post:
  "scan_inv s i level idx indices \<Longrightarrow> scan_post s (braceIndices_loop s i level idx indices)"
proof (induction "length s - i" arbitrary: i level idx indices)
  case 0
  then have i: "\<not> i < length s" and il: "i = length s" by (simp_all add: scan_inv_def)
  from "0.prems" have lv: "level = depth s (length s)" by (simp add: scan_inv_def il)
  have res: "braceIndices_loop s i level idx indices =
      (if level \<noteq> 0 then Inl (UnbalancedBraces s) else Inr indices)"
    by (rule braceIndices_loop_end [OF i])
  show ?case
  proof (cases "level = 0")
    case True
    from "0.prems" have "scan_inv s (length s) 0 idx indices" by (simp only: il True)
    then have "\<exists>idx'. scan_inv s (length s) 0 idx' indices" ..
    moreover from res True have "braceIndices_loop s i level idx indices = Inr indices" by simp
    ultimately show ?thesis
      by (simp only: scan_post_def sum.case)
  next
    case False
    have "\<not> empty_pair_reached s opn" for opn
    proof
      assume "empty_pair_reached s opn"
      then have p: "first_level_pair s opn (Suc opn)" by (simp add: empty_pair_reached_def)
      from scan_inv_no_empty_before [OF "0.prems" p] p il show False
        by (simp add: first_level_pair_def)
    qed
    moreover from res False have "braceIndices_loop s i level idx indices = Inl (UnbalancedBraces s)"
      by simp
    moreover from False lv have "depth s (length s) \<noteq> 0" by simp
    ultimately show ?thesis
      by (simp add: scan_post_def)
  qed
next
  case (Suc k)
  from Suc.hyps(2) have i: "i < length s" and k: "k = length s - Suc i" by simp_all
  note inv = Suc.prems
  from inv have lv: "level = depth s i" "0 \<le> level" by (auto simp: scan_inv_def)
  consider (opn) "s ! i = CHR ''{''" | (cls) "s ! i = CHR ''}''"
    | (other) "s ! i \<noteq> CHR ''{''" "s ! i \<noteq> CHR ''}''" by blast
  then show ?case
  proof cases
    case opn
    show ?thesis
      by (simp only: braceIndices_loop_open [OF i opn])
        (rule Suc.hyps(1) [OF k scan_inv_open [OF inv i opn]])
  next
    case other
    show ?thesis
      by (simp only: braceIndices_loop_other [OF i other])
        (rule Suc.hyps(1) [OF k scan_inv_other [OF inv i other]])
  next
    case cls
    from lv consider (neg) "level < 1" | (one) "level = 1" | (deep) "1 < level" by linarith
    then show ?thesis
    proof cases
      case deep
      show ?thesis
        by (simp only: braceIndices_loop_close [OF i cls deep])
          (rule Suc.hyps(1) [OF k scan_inv_close [OF inv i cls deep]])
    next
      case neg
      with lv have d: "depth s (Suc i) < 0" by (simp add: depth_close [OF i cls])
      have "\<not> empty_pair_reached s opn" for opn
      proof
        assume e: "empty_pair_reached s opn"
        then have p: "first_level_pair s opn (Suc opn)" by (simp add: empty_pair_reached_def)
        from scan_inv_no_empty_before [OF inv p] have "Suc i \<le> Suc (Suc opn)" by simp
        from empty_pair_depths [OF e this] d show False by simp
      qed
      moreover from i d have "\<exists>j \<le> length s. depth s j < 0" by (intro exI [of _ "Suc i"]) simp
      ultimately show ?thesis
        by (simp add: braceIndices_loop_negative [OF i cls neg] scan_post_def)
    next
      case one
      with inv have inv1: "scan_inv s i 1 idx indices" by simp
      show ?thesis
      proof (cases "i = Suc idx")
        case True
        have "first_level_pair s idx i" by (rule pending_is_first_level_pair [OF inv1 i cls])
        moreover from inv have "\<forall>j \<in> {..<idx}. 0 \<le> depth s j" using True by (simp add: scan_inv_def)
        ultimately have "empty_pair_reached s idx" using True by (simp add: empty_pair_reached_def)
        then show ?thesis
          by (auto simp: braceIndices_loop_empty [OF i cls one True] scan_post_def)
      next
        case False
        show ?thesis
          by (simp only: braceIndices_loop_pair [OF i cls one False])
            (rule Suc.hyps(1) [OF k scan_inv_pair [OF inv1 i cls False]])
      qed
    qed
  qed
qed

lemma braceIndices_post: "scan_post s (braceIndices s)"
  unfolding braceIndices_def by (rule braceIndices_loop_post [OF scan_inv_start])


lemma pairs_nth:
  "k < length xs div 2 \<Longrightarrow> pairs xs ! k = (xs ! (2 * k), xs ! (2 * k + 1))"
proof (induction xs arbitrary: k rule: pairs.induct)
  case (1 a b xs)
  then show ?case by (cases k) simp_all
qed simp_all

lemma braceIndices_success_inv:
  assumes "braceIndices s = Inr idxs"
  shows "\<exists>idx. scan_inv s (length s) 0 idx idxs"
  using braceIndices_post [of s] assms by (simp add: scan_post_def)

lemma braceIndices_failure_kinds:
  assumes "braceIndices s = Inl e"
  shows "e = UnbalancedBraces s \<and>
           ((\<exists>j \<le> length s. depth s j < 0) \<or> depth s (length s) \<noteq> 0) \<and>
           (\<forall>opn. \<not> empty_pair_reached s opn) \<or>
         e = EmptyParameter s \<and> (\<exists>opn. empty_pair_reached s opn)"
  using braceIndices_post [of s] assms by (simp add: scan_post_def)

lemma braceIndices_success_pairs:
  assumes "braceIndices s = Inr idxs"
  shows "set (pairs idxs) = {(opn, cls). first_level_pair s opn cls}"
proof -
  from braceIndices_success_inv [OF assms] obtain idx where "scan_inv s (length s) 0 idx idxs" ..
  then have "set (pairs idxs) = {(opn, cls). first_level_pair s opn cls \<and> cls < length s}"
    by (simp add: scan_inv_def)
  also have "\<dots> = {(opn, cls). first_level_pair s opn cls}"
    by (auto simp: first_level_pair_def)
  finally show ?thesis .
qed

lemma braceIndices_success_shape:
  assumes "braceIndices s = Inr idxs"
  shows "even (length idxs)" and "sorted_wrt (<) idxs"
    and "\<forall>(opn, cls) \<in> set (pairs idxs). opn + 1 < cls"
    and "\<forall>j \<le> length s. 0 \<le> depth s j" and "depth s (length s) = 0"
    and "\<forall>j < length s. s ! j = CHR ''{'' \<or> s ! j = CHR ''}'' \<longrightarrow> covered (pairs idxs) j"
    and "\<forall>x \<in> set idxs. x < length s"
proof -
  from braceIndices_success_inv [OF assms] obtain idx where inv: "scan_inv s (length s) 0 idx idxs" ..
  from inv show "even (length idxs)" by (simp add: scan_inv_def)
  from inv show "sorted_wrt (<) idxs" by (simp add: scan_inv_def)
  from inv show "\<forall>(opn, cls) \<in> set (pairs idxs). opn + 1 < cls" by (simp add: scan_inv_def)
  from inv show "\<forall>j \<le> length s. 0 \<le> depth s j" by (simp add: scan_inv_def)
  from inv show "depth s (length s) = 0" by (simp add: scan_inv_def)
  from inv show "\<forall>j < length s. s ! j = CHR ''{'' \<or> s ! j = CHR ''}'' \<longrightarrow> covered (pairs idxs) j"
    by (simp add: scan_inv_def)
  from inv show "\<forall>x \<in> set idxs. x < length s" by (simp add: scan_inv_def)
qed

text \<open>
  Claim C9. When \<^verbatim>\<open>braceIndices\<close> succeeds, the returned sequence has even length and is
  strictly increasing as a whole, so that its pairs are in left-to-right order and do not
  overlap: each pair closes before the next one opens. In the pair at positions \<open>2k\<close> and \<open>2k + 1\<close> the closing offset is more than
  one past the opening offset, the byte at the opening offset is an opening brace and the
  byte at the closing offset, an offset of the input, is a closing brace.
\<close>

theorem braceIndices_pairs_invariant:
  assumes "braceIndices s = Inr idxs"
  shows "even (length idxs) \<and> sorted_wrt (<) idxs \<and>
     (\<forall>k < length idxs div 2.
        idxs ! (2 * k) + 1 < idxs ! (2 * k + 1) \<and> idxs ! (2 * k + 1) < length s \<and>
        s ! (idxs ! (2 * k)) = CHR ''{'' \<and> s ! (idxs ! (2 * k + 1)) = CHR ''}'' \<and>
        (Suc k < length idxs div 2 \<longrightarrow> idxs ! (2 * k + 1) < idxs ! (2 * (Suc k))))"
proof (intro conjI allI impI)
  show "even (length idxs)" "sorted_wrt (<) idxs"
    by (rule braceIndices_success_shape [OF assms])+
next
  fix k assume k: "k < length idxs div 2"
  then have "pairs idxs ! k \<in> set (pairs idxs)" by (simp add: length_pairs)
  then have m: "(idxs ! (2 * k), idxs ! (2 * k + 1)) \<in> set (pairs idxs)"
    by (simp only: pairs_nth [OF k])
  with braceIndices_success_pairs [OF assms]
  have p: "first_level_pair s (idxs ! (2 * k)) (idxs ! (2 * k + 1))" by simp
  from m braceIndices_success_shape(3) [OF assms]
  show "idxs ! (2 * k) + 1 < idxs ! (2 * k + 1)" by blast
  from p show "idxs ! (2 * k + 1) < length s" "s ! (idxs ! (2 * k)) = CHR ''{''"
    "s ! (idxs ! (2 * k + 1)) = CHR ''}''"
    by (simp_all add: first_level_pair_def)
next
  fix k assume "Suc k < length idxs div 2"
  then have "2 * Suc k < length idxs" by simp
  with braceIndices_success_shape(2) [OF assms]
  show "idxs ! (2 * k + 1) < idxs ! (2 * Suc k)"
    by (simp add: sorted_wrt_iff_nth_less)
qed

theorem braceIndices_pairs_invariant_witness:
  "braceIndices ''/a/{x}/b/{y:[a-z]+}'' = Inr [3, 5, 9, 18] \<and>
   ''/a/{x}/b/{y:[a-z]+}'' ! 9 = CHR ''{'' \<and> ''/a/{x}/b/{y:[a-z]+}'' ! 18 = CHR ''}''"
proof -
  have r: "braceIndices ''/a/{x}/b/{y:[a-z]+}'' = Inr [3, 5, 9, 18]" by code_simp
  from braceIndices_pairs_invariant [OF r] show ?thesis using r by simp
qed

text \<open>
  Claim C3, as amended. \<^verbatim>\<open>braceIndices\<close> fails exactly when the nesting depth of the
  input is negative after some prefix, or is not zero at the end of the input, or some
  first-level brace pair is empty. A failure is one of two errors, and the scan from
  left to right decides which: the error for an empty parameter is returned exactly when
  the scan reaches an empty first-level pair before the depth has been negative, also
  when a brace is unbalanced further on; the error for unbalanced braces is returned
  exactly when the depth is negative somewhere or not zero at the end and no such empty
  pair is reached first. Otherwise the result lists, in increasing order, the offsets
  of exactly the first-level brace pairs.
\<close>

theorem braceIndices_fails_iff:
  "((\<exists>e. braceIndices s = Inl e) \<longleftrightarrow>
      depth_negative s \<or> depth s (length s) \<noteq> 0 \<or> empty_pair s) \<and>
   (\<forall>e. braceIndices s = Inl e \<longrightarrow> e = UnbalancedBraces s \<or> e = EmptyParameter s) \<and>
   (braceIndices s = Inl (UnbalancedBraces s) \<longrightarrow> depth_negative s \<or> depth s (length s) \<noteq> 0) \<and>
   (braceIndices s = Inl (EmptyParameter s) \<longrightarrow> empty_pair s) \<and>
   (braceIndices s = Inl (EmptyParameter s) \<longleftrightarrow> (\<exists>opn \<in> {..<length s}. empty_pair_reached s opn)) \<and>
   (braceIndices s = Inl (UnbalancedBraces s) \<longleftrightarrow>
      (depth_negative s \<or> depth s (length s) \<noteq> 0) \<and>
      \<not> (\<exists>opn \<in> {..<length s}. empty_pair_reached s opn)) \<and>
   (\<forall>idxs. braceIndices s = Inr idxs \<longrightarrow>
      sorted_wrt (<) idxs \<and> even (length idxs) \<and>
      set (pairs idxs) = {(opn, cls). first_level_pair s opn cls})"
proof -
  have reached: "(\<exists>opn \<in> {..<length s}. empty_pair_reached s opn) \<longleftrightarrow> (\<exists>opn. empty_pair_reached s opn)"
    by (auto simp: empty_pair_reached_def first_level_pair_def)
  have reached_empty: "empty_pair s" if "empty_pair_reached s opn" for opn
    using that by (auto simp: empty_pair_reached_def empty_pair_def first_level_pair_def)
  have neg: "depth_negative s \<longleftrightarrow> (\<exists>j \<le> length s. depth s j < 0)"
    by (auto simp: depth_negative_def)
  have fail: "depth_negative s \<or> depth s (length s) \<noteq> 0 \<or> empty_pair s"
    if "braceIndices s = Inl e" for e
    using braceIndices_failure_kinds [OF that] reached_empty neg by blast
  have ok: "\<not> (depth_negative s \<or> depth s (length s) \<noteq> 0 \<or> empty_pair s)"
    if r: "braceIndices s = Inr idxs" for idxs
  proof -
    have "\<not> first_level_pair s opn (Suc opn)" for opn
    proof
      assume "first_level_pair s opn (Suc opn)"
      with braceIndices_success_pairs [OF r] have "(opn, Suc opn) \<in> set (pairs idxs)" by simp
      with braceIndices_success_shape(3) [OF r] show False by auto
    qed
    then have "\<not> empty_pair s" by (simp add: empty_pair_def)
    moreover from braceIndices_success_shape(4) [OF r] have "\<not> depth_negative s"
      by (auto simp: neg)
    ultimately show ?thesis using braceIndices_success_shape(5) [OF r] by simp
  qed
  have iff: "(\<exists>e. braceIndices s = Inl e) \<longleftrightarrow>
      depth_negative s \<or> depth s (length s) \<noteq> 0 \<or> empty_pair s"
  proof (cases "braceIndices s")
    case (Inl e)
    with fail [OF Inl] show ?thesis by simp
  next
    case (Inr idxs)
    with ok [OF Inr] show ?thesis by simp
  qed
  have kinds: "e = UnbalancedBraces s \<or> e = EmptyParameter s" if "braceIndices s = Inl e" for e
    using braceIndices_failure_kinds [OF that] by blast
  have unb: "depth_negative s \<or> depth s (length s) \<noteq> 0"
    if "braceIndices s = Inl (UnbalancedBraces s)"
    using braceIndices_failure_kinds [OF that] neg by auto
  have emp: "\<exists>opn. empty_pair_reached s opn" if "braceIndices s = Inl (EmptyParameter s)"
    using braceIndices_failure_kinds [OF that] by auto
  have emp_conv: "braceIndices s = Inl (EmptyParameter s)" if e: "empty_pair_reached s opn" for opn
  proof (cases "braceIndices s")
    case (Inl x)
    from braceIndices_failure_kinds [OF Inl] e have "x = EmptyParameter s" by blast
    with Inl show ?thesis by simp
  next
    case (Inr idxs)
    with ok [OF Inr] reached_empty [OF e] show ?thesis by simp
  qed
  have succ: "sorted_wrt (<) idxs \<and> even (length idxs) \<and>
      set (pairs idxs) = {(opn, cls). first_level_pair s opn cls}"
    if r: "braceIndices s = Inr idxs" for idxs
    using braceIndices_success_shape(1,2) [OF r] braceIndices_success_pairs [OF r] by simp
  have emp_iff: "braceIndices s = Inl (EmptyParameter s) \<longleftrightarrow>
      (\<exists>opn \<in> {..<length s}. empty_pair_reached s opn)"
    using emp emp_conv reached by blast
  have unb_iff: "braceIndices s = Inl (UnbalancedBraces s) \<longleftrightarrow>
      (depth_negative s \<or> depth s (length s) \<noteq> 0) \<and>
      \<not> (\<exists>opn \<in> {..<length s}. empty_pair_reached s opn)"
  proof
    assume u: "braceIndices s = Inl (UnbalancedBraces s)"
    with emp_iff have "\<not> (\<exists>opn \<in> {..<length s}. empty_pair_reached s opn)" by simp
    with unb [OF u] show "(depth_negative s \<or> depth s (length s) \<noteq> 0) \<and>
        \<not> (\<exists>opn \<in> {..<length s}. empty_pair_reached s opn)" ..
  next
    assume a: "(depth_negative s \<or> depth s (length s) \<noteq> 0) \<and>
        \<not> (\<exists>opn \<in> {..<length s}. empty_pair_reached s opn)"
    with iff obtain e where e: "braceIndices s = Inl e" by blast
    from kinds [OF e] have "e = UnbalancedBraces s \<or> e = EmptyParameter s" .
    moreover from a emp_iff e have "e \<noteq> EmptyParameter s" by auto
    ultimately show "braceIndices s = Inl (UnbalancedBraces s)" using e by simp
  qed
  show ?thesis
  proof (intro conjI)
    show "(\<exists>e. braceIndices s = Inl e) \<longleftrightarrow>
        depth_negative s \<or> depth s (length s) \<noteq> 0 \<or> empty_pair s"
      by (rule iff)
    show "\<forall>e. braceIndices s = Inl e \<longrightarrow> e = UnbalancedBraces s \<or> e = EmptyParameter s"
      using kinds by blast
    show "braceIndices s = Inl (UnbalancedBraces s) \<longrightarrow>
        depth_negative s \<or> depth s (length s) \<noteq> 0"
      using unb by blast
    show "braceIndices s = Inl (EmptyParameter s) \<longrightarrow> empty_pair s"
      using emp reached_empty by blast
    show "braceIndices s = Inl (EmptyParameter s) \<longleftrightarrow>
        (\<exists>opn \<in> {..<length s}. empty_pair_reached s opn)"
      by (rule emp_iff)
    show "braceIndices s = Inl (UnbalancedBraces s) \<longleftrightarrow>
        (depth_negative s \<or> depth s (length s) \<noteq> 0) \<and>
        \<not> (\<exists>opn \<in> {..<length s}. empty_pair_reached s opn)"
      by (rule unb_iff)
    show "\<forall>idxs. braceIndices s = Inr idxs \<longrightarrow>
        sorted_wrt (<) idxs \<and> even (length idxs) \<and>
        set (pairs idxs) = {(opn, cls). first_level_pair s opn cls}"
      using succ by blast
  qed
qed


theorem braceIndices_fails_iff_witness:
  "(depth_negative ''/a/id}'' \<or> depth ''/a/id}'' (length ''/a/id}'') \<noteq> 0) \<and>
   empty_pair ''/{}'' \<and> first_level_pair ''/{id}'' 1 4 \<and>
   (\<exists>e. braceIndices ''/{a{b}'' = Inl e) \<and>
   \<not> (\<exists>opn \<in> {..<length ''/a/id}''}. empty_pair_reached ''/a/id}'' opn) \<and>
   braceIndices ''/{}/}'' = Inl (EmptyParameter ''/{}/}'')"
proof -
  have u: "braceIndices ''/a/id}'' = Inl (UnbalancedBraces ''/a/id}'')" by code_simp
  have e: "braceIndices ''/{}'' = Inl (EmptyParameter ''/{}'')" by code_simp
  have r: "braceIndices ''/{id}'' = Inr [1, 4]" by code_simp
  have d: "depth ''/{a{b}'' (length ''/{a{b}'') \<noteq> 0" by code_simp
  have f: "\<exists>opn \<in> {..<length ''/{}/}''}. empty_pair_reached ''/{}/}'' opn" by code_simp
  from braceIndices_fails_iff [of "''/a/id}''"] u
  have 1: "depth_negative ''/a/id}'' \<or> depth ''/a/id}'' (length ''/a/id}'') \<noteq> 0" by blast
  from braceIndices_fails_iff [of "''/{}''"] e have 2: "empty_pair ''/{}''" by blast
  from braceIndices_fails_iff [of "''/{id}''"] r
  have "set (pairs [1, 4]) = {(opn, cls). first_level_pair ''/{id}'' opn cls}" by blast
  then have 3: "first_level_pair ''/{id}'' 1 4" by auto
  from braceIndices_fails_iff [of "''/{a{b}''"] d
  have 4: "\<exists>e. braceIndices ''/{a{b}'' = Inl e" by blast
  from braceIndices_fails_iff [of "''/a/id}''"] u
  have 6: "\<not> (\<exists>opn \<in> {..<length ''/a/id}''}. empty_pair_reached ''/a/id}'' opn)" by blast
  from braceIndices_fails_iff [of "''/{}/}''"] f
  have 5: "braceIndices ''/{}/}'' = Inl (EmptyParameter ''/{}/}'')" by blast
  from 1 2 3 4 5 6 show ?thesis by blast
qed

text \<open>
  The claim C3 as it is written fails where two of its conditions meet. In \<^verbatim>\<open>/{}/}\<close> the
  last brace has no opening brace, and in \<^verbatim>\<open>{}{\<close> the depth is not zero at the end; the
  claim reports both as unbalanced braces. The scanner meets the empty pair first and
  returns the error for an empty parameter.
\<close>

theorem unbalanced_reported_empty_counterexample:
  "depth_negative ''/{}/}'' \<and>
   braceIndices ''/{}/}'' = Inl (EmptyParameter ''/{}/}'') \<and>
   braceIndices ''/{}/}'' \<noteq> Inl (UnbalancedBraces ''/{}/}'') \<and>
   depth ''{}{'' (length ''{}{'') \<noteq> 0 \<and>
   braceIndices ''{}{'' = Inl (EmptyParameter ''{}{'') \<and>
   braceIndices ''{}{'' \<noteq> Inl (UnbalancedBraces ''{}{'')"
proof -
  have "depth_negative ''/{}/}''" by code_simp
  moreover have "braceIndices ''/{}/}'' = Inl (EmptyParameter ''/{}/}'')" by code_simp
  moreover have "depth ''{}{'' (length ''{}{'') \<noteq> 0" by code_simp
  moreover have "braceIndices ''{}{'' = Inl (EmptyParameter ''{}{'')" by code_simp
  ultimately show ?thesis by simp
qed

section \<open>Properties of the pattern compiler\<close>

lemma SplitN_colon:
  "SplitN sub CHR '':'' 2 =
     (if CHR '':'' \<in> set sub then [param_name sub, tl (dropWhile (\<lambda>c. c \<noteq> CHR '':'') sub)]
      else [sub])"
  by (simp add: numeral_2_eq_2 param_name_def)

lemma param_name_no_colon: "CHR '':'' \<notin> set sub \<Longrightarrow> param_name sub = sub"
  by (auto simp: param_name_def takeWhile_eq_all_conv)

lemma placeholder_cases:
  "placeholder sub =
     (if param_name sub = [] then Inl (MissingName sub)
      else if CHR '':'' \<in> set sub \<and> group_pattern sub = [] then Inl (MissingPattern sub)
      else Inr (param_name sub, group_pattern sub))"
  by (simp add: placeholder_def SplitN_colon Let_def group_pattern_def param_name_no_colon)

lemma placeholder_Inr:
  assumes "placeholder sub = Inr (n, pt)"
  shows "n = param_name sub" "pt = group_pattern sub" "n \<noteq> []" "pt \<noteq> []"
  using assms by (auto simp: placeholder_cases group_pattern_def split: if_splits)

lemma check_bodies_Inr:
  "check_bodies bs = Inr nps \<Longrightarrow>
   map fst nps = map param_name bs \<and> map snd nps = map group_pattern bs"
proof (induction bs arbitrary: nps)
  case Nil
  then show ?case by simp
next
  case (Cons b bs)
  then obtain np rest where p: "placeholder b = Inr np" and r: "check_bodies bs = Inr rest"
    and n: "nps = np # rest"
    by (auto split: sum.splits)
  obtain nm pt where np: "np = (nm, pt)" by (cases np)
  from p np have "nm = param_name b" "pt = group_pattern b"
    by (simp_all add: placeholder_Inr(1,2))
  with Cons.IH [OF r] n np show ?case by simp
qed

lemma compile_loop_stop:
  "\<not> i < length idxs \<Longrightarrow> compile_loop uri idxs i e b ps = Inr (e, b, ps)"
  by (subst compile_loop.simps) simp

lemma compile_loop_step:
  assumes "i < length idxs" "Suc i < length idxs" "e \<le> idxs ! i"
    "idxs ! i < idxs ! Suc i" "idxs ! Suc i \<le> length uri"
  shows "compile_loop uri idxs i e b ps =
     (case placeholder (body uri (idxs ! i, idxs ! Suc i)) of
        Inl err \<Rightarrow> Inl err
      | Inr (name, pattern) \<Rightarrow>
          compile_loop uri idxs (Suc (Suc i)) (Suc (idxs ! Suc i))
            (b @ take (idxs ! i - e) (drop e uri) @ ''('' @ pattern @ '')'') (ps @ [name]))"
  using assms
  by (subst compile_loop.simps) (simp add: slice_def index_def body_def add_2_eq_Suc' split: sum.splits)

lemma drop_two:
  "Suc i < length xs \<Longrightarrow> drop i xs = xs ! i # xs ! Suc i # drop (Suc (Suc i)) xs"
  by (simp add: Cons_nth_drop_Suc Suc_lessD)

lemma compile_loop_spec:
  assumes "even (length idxs)" "sorted_wrt (<) idxs" "\<forall>x \<in> set idxs. x < length uri"
  shows "even i \<Longrightarrow> e \<le> length uri \<Longrightarrow> (i < length idxs \<Longrightarrow> e \<le> idxs ! i) \<Longrightarrow>
     (case check_bodies (map (body uri) (pairs (drop i idxs))) of
        Inl err \<Rightarrow> compile_loop uri idxs i e b ps = Inl err
      | Inr nps \<Rightarrow>
          (\<exists>e' b'. compile_loop uri idxs i e b ps = Inr (e', b', ps @ map fst nps) \<and>
             e' \<le> length uri \<and> b' @ drop e' uri = b @ assemble uri e (pairs (drop i idxs))))"
proof (induction "length idxs - i" arbitrary: i e b ps rule: less_induct)
  case less
  show ?case
  proof (cases "i < length idxs")
    case False
    then show ?thesis using less.prems by (simp add: compile_loop_stop)
  next
    case True
    with less.prems(1) assms(1) have si: "Suc i < length idxs"
      by (metis Suc_lessI even_Suc)
    let ?o = "idxs ! i" and ?c = "idxs ! Suc i"
    from assms(2) si have oc: "?o < ?c" by (simp add: sorted_wrt_iff_nth_less)
    from assms(3) si have cl: "?c < length uri" by simp
    from less.prems(3) True have eo: "e \<le> ?o" by simp
    have step: "compile_loop uri idxs i e b ps =
       (case placeholder (body uri (?o, ?c)) of
          Inl err \<Rightarrow> Inl err
        | Inr (name, pattern) \<Rightarrow>
            compile_loop uri idxs (Suc (Suc i)) (Suc ?c)
              (b @ take (?o - e) (drop e uri) @ ''('' @ pattern @ '')'') (ps @ [name]))"
      using True si eo oc cl by (intro compile_loop_step) simp_all
    have dr: "drop i idxs = ?o # ?c # drop (Suc (Suc i)) idxs" by (rule drop_two [OF si])
    show ?thesis
    proof (cases "placeholder (body uri (?o, ?c))")
      case (Inl err)
      then show ?thesis by (simp add: step dr)
    next
      case (Inr np)
      obtain name pattern where np: "np = (name, pattern)" by (cases np)
      from placeholder_Inr(2) [of "body uri (?o, ?c)" name pattern] Inr np
      have pt: "pattern = group_pattern (body uri (?o, ?c))" by simp
      have nxt: "Suc (Suc i) < length idxs \<Longrightarrow> Suc ?c \<le> idxs ! Suc (Suc i)"
        using assms(2) by (simp add: sorted_wrt_iff_nth_less Suc_leI)
      have IH: "case check_bodies (map (body uri) (pairs (drop (Suc (Suc i)) idxs))) of
          Inl err \<Rightarrow> compile_loop uri idxs (Suc (Suc i)) (Suc ?c)
              (b @ take (?o - e) (drop e uri) @ ''('' @ pattern @ '')'') (ps @ [name]) = Inl err
        | Inr nps \<Rightarrow>
            (\<exists>e' b'. compile_loop uri idxs (Suc (Suc i)) (Suc ?c)
                (b @ take (?o - e) (drop e uri) @ ''('' @ pattern @ '')'') (ps @ [name]) =
                  Inr (e', b', (ps @ [name]) @ map fst nps) \<and>
               e' \<le> length uri \<and>
               b' @ drop e' uri =
                 (b @ take (?o - e) (drop e uri) @ ''('' @ pattern @ '')'') @
                 assemble uri (Suc ?c) (pairs (drop (Suc (Suc i)) idxs)))"
        using True less.prems(1) cl nxt by (intro less.hyps) auto
      show ?thesis
      proof (cases "check_bodies (map (body uri) (pairs (drop (Suc (Suc i)) idxs)))")
        case (Inl err)
        with IH Inr np show ?thesis by (simp add: step dr)
      next
        case r: (Inr nps)
        with IH Inr np pt show ?thesis by (simp add: step dr)
      qed
    qed
  qed
qed


lemma buildPattern_spec:
  "buildPattern params0 uri ends =
     (case braceIndices uri of
        Inl e \<Rightarrow> Inl e
      | Inr idxs \<Rightarrow>
        (case check_bodies (map (body uri) (pairs idxs)) of
           Inl e \<Rightarrow> Inl e
         | Inr nps \<Rightarrow>
             Inr (idxs, ''^'' @ assemble uri 0 (pairs idxs) @ (if ends then ''$'' else []),
                  params0 @ map fst nps)))"
proof (cases "braceIndices uri")
  case (Inl e)
  then show ?thesis by (simp add: buildPattern_def)
next
  case (Inr idxs)
  note shape = braceIndices_success_shape [OF Inr]
  show ?thesis
  proof (cases "idxs = []")
    case True
    with Inr show ?thesis by (simp add: buildPattern_def)
  next
    case False
    then have pos: "0 < length idxs" by simp
    have e0: "0 < length idxs \<Longrightarrow> 0 \<le> idxs ! 0" by simp
    have spec: "case check_bodies (map (body uri) (pairs (drop 0 idxs))) of
        Inl err \<Rightarrow> compile_loop uri idxs 0 0 ''^'' params0 = Inl err
      | Inr nps \<Rightarrow>
          (\<exists>e' b'. compile_loop uri idxs 0 0 ''^'' params0 = Inr (e', b', params0 @ map fst nps) \<and>
             e' \<le> length uri \<and> b' @ drop e' uri = ''^'' @ assemble uri 0 (pairs (drop 0 idxs)))"
      by (rule compile_loop_spec [OF shape(1,2,7)]) simp_all
    show ?thesis
    proof (cases "check_bodies (map (body uri) (pairs idxs))")
      case (Inl err)
      with spec have "compile_loop uri idxs 0 0 ''^'' params0 = Inl err" by simp
      with Inr Inl pos show ?thesis by (simp add: buildPattern_def)
    next
      case r: (Inr nps)
      with spec obtain e' b' where
        l: "compile_loop uri idxs 0 0 ''^'' params0 = Inr (e', b', params0 @ map fst nps)" and
        e': "e' \<le> length uri" and b': "b' @ drop e' uri = ''^'' @ assemble uri 0 (pairs idxs)"
        by auto
      from e' have sl: "slice uri e' (length uri) = Inr (drop e' uri)" by (simp add: slice_def)
      from Inr r pos l sl b' show ?thesis by (simp add: buildPattern_def)
    qed
  qed
qed

lemma compileParameters_Inr:
  assumes "compileParameters eng p uri ends = Inr p'"
  obtains idxs nps r where
    "braceIndices uri = Inr idxs"
    "check_bodies (map (body uri) (pairs idxs)) = Inr nps"
    "compile eng (''^'' @ assemble uri 0 (pairs idxs) @ (if ends then ''$'' else [])) = Some r"
    "numSubexp eng r = length idxs div 2"
    "p' = p\<lparr>regex := Some r, parameters := parameters p @ map fst nps\<rparr>"
  using assms unfolding compileParameters_def buildPattern_spec
  by (auto split: sum.splits option.splits if_splits)


lemma pairs_members: "pr \<in> set (pairs xs) \<Longrightarrow> fst pr \<in> set xs \<and> snd pr \<in> set xs"
  by (induction xs rule: pairs.induct) auto

lemma distinct_pairs: "sorted_wrt (<) xs \<Longrightarrow> distinct (pairs xs)"
proof (induction xs rule: pairs.induct)
  case (1 a b xs)
  have "(a, b) \<notin> set (pairs xs)"
  proof
    assume "(a, b) \<in> set (pairs xs)"
    from pairs_members [OF this] have "a \<in> set xs" by simp
    with "1.prems" show False by auto
  qed
  with 1 show ?case by simp
qed simp_all

text \<open>
  Claim C1. A successful compilation of a template appends to the parameter list of the
  receiver the names of the placeholders in the order of the template, one for each
  index pair of the scanner; \<open>k\<close>, the number of pairs, is the number of first-level brace
  pairs of the template. The compiled pattern has exactly \<open>k\<close> capturing groups. For a
  receiver without parameters, as every new route and router is, the parameter list is
  the list of these \<open>k\<close> names.
\<close>

theorem compileParameters_names_and_groups:
  assumes "compileParameters eng p uri ends = Inr p'"
  shows "\<exists>idxs r. braceIndices uri = Inr idxs \<and> regex p' = Some r \<and>
     parameters p' = parameters p @ map (\<lambda>pr. param_name (body uri pr)) (pairs idxs) \<and>
     length (pairs idxs) = card {(opn, cls). first_level_pair uri opn cls} \<and>
     numSubexp eng r = length (pairs idxs) \<and>
     (parameters p = [] \<longrightarrow> length (parameters p') = length (pairs idxs))"
proof -
  from assms obtain idxs nps r where
    b: "braceIndices uri = Inr idxs" and
    c: "check_bodies (map (body uri) (pairs idxs)) = Inr nps" and
    n: "numSubexp eng r = length idxs div 2" and
    p': "p' = p\<lparr>regex := Some r, parameters := parameters p @ map fst nps\<rparr>"
    by (rule compileParameters_Inr)
  from check_bodies_Inr [OF c]
  have names: "map fst nps = map (\<lambda>pr. param_name (body uri pr)) (pairs idxs)"
    by (simp add: comp_def)
  have "card (set (pairs idxs)) = length (pairs idxs)"
    by (rule distinct_card [OF distinct_pairs [OF braceIndices_success_shape(2) [OF b]]])
  then have k: "length (pairs idxs) = card {(opn, cls). first_level_pair uri opn cls}"
    by (simp only: braceIndices_success_pairs [OF b])
  from b p' names n k show ?thesis
    by (intro exI [of _ idxs] exI [of _ r]) (simp add: length_pairs)
qed

theorem compileParameters_names_and_groups_witness:
  "compileParameters fragment_engine \<lparr>regex = None, parameters = []\<rparr> ''/a/{x}/b/{y:[a-z]+}'' False =
     Inr \<lparr>regex = re_compile ''^/a/([^/]+)/b/([a-z]+)'', parameters = [''x'', ''y'']\<rparr> \<and>
   map_option snd (re_compile ''^/a/([^/]+)/b/([a-z]+)'') = Some 2"
proof -
  let ?p = "\<lparr>regex = None, parameters = []\<rparr> :: (re \<times> nat) parametrizeable"
  let ?uri = "''/a/{x}/b/{y:[a-z]+}''"
  have c: "compileParameters fragment_engine ?p ?uri False =
      Inr \<lparr>regex = re_compile ''^/a/([^/]+)/b/([a-z]+)'', parameters = [''x'', ''y'']\<rparr>"
    by code_simp
  have b: "braceIndices ?uri = Inr [3, 5, 9, 18]" by code_simp
  from compileParameters_names_and_groups [OF c] obtain idxs r where
    "braceIndices ?uri = Inr idxs" and r: "re_compile ''^/a/([^/]+)/b/([a-z]+)'' = Some r" and
    "numSubexp fragment_engine r = length (pairs idxs)"
    by (elim exE conjE) simp
  with b have "snd r = 2" by (simp add: fragment_engine_def)
  with c r show ?thesis by simp
qed

text \<open>
  Claim C2. For a template that compiles, the expression handed to the engine is the
  start anchor, then for each placeholder in order the literal text before it, copied
  unchanged, and one group holding the subpattern of the placeholder or the default
  pattern, then the text after the last placeholder, and the end anchor exactly when
  \<^verbatim>\<open>ends\<close> is true.
\<close>

theorem compileParameters_pattern:
  assumes "compileParameters eng p uri ends = Inr p'"
  shows "\<exists>idxs pat r. braceIndices uri = Inr idxs \<and>
     buildPattern (parameters p) uri ends = Inr (idxs, pat, parameters p') \<and>
     compile eng pat = Some r \<and> regex p' = Some r \<and>
     pat = ''^'' @ assemble uri 0 (pairs idxs) @ (if ends then ''$'' else [])"
proof -
  from assms obtain idxs nps r where
    b: "braceIndices uri = Inr idxs" and
    c: "check_bodies (map (body uri) (pairs idxs)) = Inr nps" and
    r: "compile eng (''^'' @ assemble uri 0 (pairs idxs) @ (if ends then ''$'' else [])) = Some r" and
    p': "p' = p\<lparr>regex := Some r, parameters := parameters p @ map fst nps\<rparr>"
    by (rule compileParameters_Inr)
  from b c p' have "buildPattern (parameters p) uri ends =
      Inr (idxs, ''^'' @ assemble uri 0 (pairs idxs) @ (if ends then ''$'' else []), parameters p')"
    by (simp add: buildPattern_spec)
  with b r p' show ?thesis by auto
qed

theorem compileParameters_pattern_witness:
  "buildPattern [] ''/a/{x}/b/{y:[a-z]+}'' True =
     Inr ([3, 5, 9, 18], ''^/a/([^/]+)/b/([a-z]+)$'', [''x'', ''y''])"
proof -
  let ?p = "\<lparr>regex = None, parameters = []\<rparr> :: (re \<times> nat) parametrizeable"
  let ?uri = "''/a/{x}/b/{y:[a-z]+}''"
  have b: "braceIndices ?uri = Inr [3, 5, 9, 18]" by code_simp
  have a: "assemble ?uri 0 (pairs [3, 5, 9, 18]) = ''/a/([^/]+)/b/([a-z]+)''"
    by (simp add: body_def group_pattern_def)
  have c: "compileParameters fragment_engine ?p ?uri True =
      Inr \<lparr>regex = re_compile ''^/a/([^/]+)/b/([a-z]+)$'', parameters = [''x'', ''y'']\<rparr>"
    by code_simp
  from compileParameters_pattern [OF c] obtain idxs pat where
    "braceIndices ?uri = Inr idxs" and
    bp: "buildPattern [] ?uri True = Inr (idxs, pat, [''x'', ''y''])" and
    "pat = ''^'' @ assemble ?uri 0 (pairs idxs) @ ''$''"
    by (elim exE conjE) simp
  with b a have "idxs = [3, 5, 9, 18]" "pat = ''^/a/([^/]+)/b/([a-z]+)$''" by simp_all
  with bp show ?thesis by simp
qed

text \<open>
  Claim C4, as amended. When the assembled expression compiles but the number of its
  capturing groups differs from the number of index pairs the scanner found,
  \<^verbatim>\<open>compileParameters\<close> panics with the message about capture groups, which quotes the
  template. A compilation that returns has exactly as many groups as it has added names.
  The check compares the two numbers and nothing more: which group stands at which
  position is not part of it.
\<close>

theorem compileParameters_capture_groups:
  "(\<forall>idxs pat params r.
      braceIndices uri = Inr idxs \<and> buildPattern (parameters p) uri ends = Inr (idxs, pat, params) \<and>
      compile eng pat = Some r \<and> numSubexp eng r \<noteq> length (pairs idxs)
      \<longrightarrow> compileParameters eng p uri ends = Inl (CaptureGroups uri)) \<and>
   (\<forall>p'. compileParameters eng p uri ends = Inr p'
      \<longrightarrow> (\<exists>r. regex p' = Some r \<and>
             length (parameters p') = length (parameters p) + numSubexp eng r))"
proof (intro conjI allI impI)
  fix idxs pat params r
  assume "braceIndices uri = Inr idxs \<and> buildPattern (parameters p) uri ends = Inr (idxs, pat, params) \<and>
      compile eng pat = Some r \<and> numSubexp eng r \<noteq> length (pairs idxs)"
  then show "compileParameters eng p uri ends = Inl (CaptureGroups uri)"
    by (simp add: compileParameters_def length_pairs)
next
  fix p' assume "compileParameters eng p uri ends = Inr p'"
  then obtain idxs nps r where
    c: "check_bodies (map (body uri) (pairs idxs)) = Inr nps" and
    n: "numSubexp eng r = length idxs div 2" and
    p': "p' = p\<lparr>regex := Some r, parameters := parameters p @ map fst nps\<rparr>"
    by (rule compileParameters_Inr)
  from check_bodies_Inr [OF c] have "length nps = length (pairs idxs)"
    by (metis length_map)
  with n p' show "\<exists>r. regex p' = Some r \<and>
      length (parameters p') = length (parameters p) + numSubexp eng r"
    by (simp add: length_pairs)
qed

theorem compileParameters_capture_groups_witness:
  "compileParameters fragment_engine \<lparr>regex = None, parameters = []\<rparr> ''/{id:(foo)}'' True =
     Inl (CaptureGroups ''/{id:(foo)}'')"
proof -
  let ?p = "\<lparr>regex = None, parameters = []\<rparr> :: (re \<times> nat) parametrizeable"
  have b: "braceIndices ''/{id:(foo)}'' = Inr [1, 10]" by code_simp
  have bp: "buildPattern (parameters ?p) ''/{id:(foo)}'' True = Inr ([1, 10], ''^/((foo))$'', [''id''])"
    by code_simp
  have c: "compile fragment_engine ''^/((foo))$'' =
      Some (Cat Bol (Cat (Lit CHR ''/'')
        (Cat (Group 1 (Group 2 (Cat (Lit CHR ''f'') (Cat (Lit CHR ''o'') (Lit CHR ''o''))))) Eol)), 2)"
    by code_simp
  have n: "numSubexp fragment_engine (Cat Bol (Cat (Lit CHR ''/'')
        (Cat (Group 1 (Group 2 (Cat (Lit CHR ''f'') (Cat (Lit CHR ''o'') (Lit CHR ''o''))))) Eol)), 2)
      \<noteq> length (pairs [1, 10 :: nat])"
    by (simp add: fragment_engine_def)
  from compileParameters_capture_groups [of "''/{id:(foo)}''" ?p True fragment_engine] b bp c n
  show ?thesis by blast
qed

section \<open>The checks of a placeholder\<close>

lemma param_name_split: "CHR '':'' \<notin> set n \<Longrightarrow> param_name (n @ CHR '':'' # pt) = n"
  by (induction n) (auto simp: param_name_def)

lemma group_pattern_split: "CHR '':'' \<notin> set n \<Longrightarrow> group_pattern (n @ CHR '':'' # pt) = pt"
  by (induction n) (auto simp: group_pattern_def)

lemma group_pattern_default: "CHR '':'' \<notin> set n \<Longrightarrow> group_pattern n = ''[^/]+''"
  by (simp add: group_pattern_def)

lemma check_bodies_first_error:
  assumes "\<forall>b \<in> set before. \<exists>np. placeholder b = Inr np" "placeholder b = Inl e"
  shows "check_bodies (before @ b # after) = Inl e"
  using assms by (induction before) auto

text \<open>
  Claim C6, as amended. The body of a placeholder is split at its first colon only:
  what precedes is the name, and all that follows, further colons included, is the
  subpattern. The name is checked first: an empty name is the error of a missing name,
  also when the subpattern is empty too. With a name, a colon followed by nothing is the
  error of a missing pattern. A body without colon is a name with the default pattern
  \<^verbatim>\<open>[^/]+\<close>. The placeholders are checked in template order, and the first invalid one
  decides the error of the compilation.
\<close>

theorem placeholder_checks:
  "(\<forall>n pt. CHR '':'' \<notin> set n \<longrightarrow>
      placeholder (n @ CHR '':'' # pt) =
        (if n = [] then Inl (MissingName (n @ CHR '':'' # pt))
         else if pt = [] then Inl (MissingPattern (n @ CHR '':'' # pt))
         else Inr (n, pt))) \<and>
   (\<forall>n. CHR '':'' \<notin> set n \<longrightarrow>
      placeholder n = (if n = [] then Inl (MissingName n) else Inr (n, ''[^/]+''))) \<and>
   (\<forall>idxs before pr after e.
      braceIndices uri = Inr idxs \<and> pairs idxs = before @ pr # after \<and>
      (\<forall>q \<in> set before. \<exists>np. placeholder (body uri q) = Inr np) \<and>
      placeholder (body uri pr) = Inl e
      \<longrightarrow> compileParameters eng p uri ends = Inl e)"
proof (intro conjI allI impI)
  fix n pt assume "CHR '':'' \<notin> set n"
  then show "placeholder (n @ CHR '':'' # pt) =
        (if n = [] then Inl (MissingName (n @ CHR '':'' # pt))
         else if pt = [] then Inl (MissingPattern (n @ CHR '':'' # pt))
         else Inr (n, pt))"
    by (simp add: placeholder_cases param_name_split group_pattern_split)
next
  fix n :: string assume "CHR '':'' \<notin> set n"
  then show "placeholder n = (if n = [] then Inl (MissingName n) else Inr (n, ''[^/]+''))"
    by (simp add: placeholder_cases param_name_no_colon group_pattern_default)
next
  fix idxs before pr after e
  assume a: "braceIndices uri = Inr idxs \<and> pairs idxs = before @ pr # after \<and>
      (\<forall>q \<in> set before. \<exists>np. placeholder (body uri q) = Inr np) \<and>
      placeholder (body uri pr) = Inl e"
  then have "check_bodies (map (body uri) before @ body uri pr # map (body uri) after) = Inl e"
    by (intro check_bodies_first_error) auto
  with a have "check_bodies (map (body uri) (pairs idxs)) = Inl e" by simp
  with a show "compileParameters eng p uri ends = Inl e"
    by (simp add: compileParameters_def buildPattern_spec)
qed

theorem placeholder_checks_witness:
  "compileParameters fragment_engine \<lparr>regex = None, parameters = []\<rparr> ''/{a}/{b:}/{:c}'' True =
     Inl (MissingPattern ''b:'') \<and>
   placeholder ''id:[0-9]+:x'' = Inr (''id'', ''[0-9]+:x'')"
proof -
  let ?uri = "''/{a}/{b:}/{:c}''"
  have b: "braceIndices ?uri = Inr [1, 3, 5, 8, 10, 13]" by code_simp
  have ps: "pairs [1, 3, 5, 8, 10, 13 :: nat] = [(1, 3)] @ (5, 8) # [(10, 13)]" by simp
  have "placeholder (body ?uri (1, 3)) = Inr (''a'', ''[^/]+'')" by code_simp
  then have ok: "\<forall>q \<in> set [(1, 3)]. \<exists>np. placeholder (body ?uri q) = Inr np" by simp
  have bad: "placeholder (body ?uri (5, 8)) = Inl (MissingPattern ''b:'')" by code_simp
  note t = placeholder_checks [of ?uri fragment_engine "\<lparr>regex = None, parameters = []\<rparr>" True]
  from t b ps ok bad
  have 1: "compileParameters fragment_engine \<lparr>regex = None, parameters = []\<rparr> ?uri True =
      Inl (MissingPattern ''b:'')"
    by blast
  have "CHR '':'' \<notin> set ''id''" by simp
  with t have "placeholder (''id'' @ CHR '':'' # ''[0-9]+:x'') =
      (if ''id'' = [] then Inl (MissingName (''id'' @ CHR '':'' # ''[0-9]+:x''))
       else if ''[0-9]+:x'' = [] then Inl (MissingPattern (''id'' @ CHR '':'' # ''[0-9]+:x''))
       else Inr (''id'', ''[0-9]+:x''))"
    by blast
  then have 2: "placeholder ''id:[0-9]+:x'' = Inr (''id'', ''[0-9]+:x'')" by simp
  from 1 2 show ?thesis by simp
qed

text \<open>
  The claim C6 as it is written fails on the template \<^verbatim>\<open>/{:}\<close>: the body \<^verbatim>\<open>:\<close> has a
  colon with nothing after it, and the compilation reports a missing name, not a missing
  pattern.
\<close>

theorem missing_pattern_counterexample:
  "braceIndices ''/{:}'' = Inr [1, 3] \<and> body ''/{:}'' (1, 3) = '':'' \<and>
   CHR '':'' \<in> set '':'' \<and> tl (dropWhile (\<lambda>c. c \<noteq> CHR '':'') '':'') = [] \<and>
   compileParameters fragment_engine \<lparr>regex = None, parameters = []\<rparr> ''/{:}'' True =
     Inl (MissingName '':'') \<and>
   compileParameters fragment_engine \<lparr>regex = None, parameters = []\<rparr> ''/{:}'' True \<noteq>
     Inl (MissingPattern '':'')"
proof -
  have b: "braceIndices ''/{:}'' = Inr [1, 3]" by code_simp
  have c: "compileParameters fragment_engine \<lparr>regex = None, parameters = []\<rparr> ''/{:}'' True =
     Inl (MissingName '':'')"
    by code_simp
  from b c show ?thesis by (simp add: body_def)
qed

section \<open>Properties of the parameter binder\<close>

lemma makeParameters_loop_step:
  "i < length match \<Longrightarrow> i < length names \<Longrightarrow>
   makeParameters_loop match names i params =
     makeParameters_loop match names (Suc i) (params(names ! i \<mapsto> match ! i))"
  by (subst makeParameters_loop.simps) (simp add: index_def)

lemma makeParameters_loop_stop:
  "\<not> i < length match \<Longrightarrow> makeParameters_loop match names i params = Inr params"
  by (subst makeParameters_loop.simps) simp

lemma makeParameters_loop_index:
  "i < length match \<Longrightarrow> \<not> i < length names \<Longrightarrow>
   makeParameters_loop match names i params = Inl OutOfRange"
  by (subst makeParameters_loop.simps) (simp add: index_def)

lemma bind_range_first:
  "i < n \<Longrightarrow> bind_range match names i n params =
     bind_range match names (Suc i) n (params(names ! i \<mapsto> match ! i))"
  unfolding bind_range_def by (simp only: upt_conv_Cons fold_simps)

lemma bind_range_Suc:
  "i \<le> n \<Longrightarrow> bind_range match names i (Suc n) params =
     (bind_range match names i n params)(names ! n \<mapsto> match ! n)"
  unfolding bind_range_def by (simp only: upt_Suc_append fold_append fold_simps o_apply)

lemma bind_range_empty: "bind_range match names n n params = params"
  by (simp add: bind_range_def)

lemma makeParameters_loop_total:
  "length match \<le> length names \<Longrightarrow>
   makeParameters_loop match names i params = Inr (bind_range match names i (length match) params)"
proof (induction "length match - i" arbitrary: i params)
  case 0
  then have "\<not> i < length match" by simp
  then show ?case
    by (simp add: makeParameters_loop_stop bind_range_def)
next
  case (Suc k)
  then have lt: "i < length match" and k: "k = length match - Suc i" by simp_all
  from lt Suc.prems have ln: "i < length names" by simp
  have "makeParameters_loop match names i params =
      makeParameters_loop match names (Suc i) (params(names ! i \<mapsto> match ! i))"
    by (rule makeParameters_loop_step [OF lt ln])
  also have "\<dots> = Inr (bind_range match names (Suc i) (length match) (params(names ! i \<mapsto> match ! i)))"
    by (rule Suc.hyps(1) [OF k Suc.prems])
  also have "\<dots> = Inr (bind_range match names i (length match) params)"
    by (simp only: bind_range_first [OF lt])
  finally show ?case .
qed

lemma makeParameters_loop_panics:
  "length names < length match \<Longrightarrow> i \<le> length names \<Longrightarrow>
   makeParameters_loop match names i params = Inl OutOfRange"
proof (induction "length names - i" arbitrary: i params)
  case 0
  then have "i < length match" "\<not> i < length names" by simp_all
  then show ?case by (rule makeParameters_loop_index)
next
  case (Suc k)
  then have ln: "i < length names" and k: "k = length names - Suc i" by simp_all
  with Suc.prems have lt: "i < length match" by simp
  have "makeParameters_loop match names i params =
      makeParameters_loop match names (Suc i) (params(names ! i \<mapsto> match ! i))"
    by (rule makeParameters_loop_step [OF lt ln])
  also have "\<dots> = Inl OutOfRange"
    using ln by (intro Suc.hyps(1) [OF k Suc.prems(1)]) simp
  finally show ?case .
qed

lemma dom_bind_range:
  "i \<le> n \<Longrightarrow> dom (bind_range match names i n params) = dom params \<union> (\<lambda>j. names ! j) ` {i..<n}"
proof (induction n)
  case 0
  then show ?case by (simp add: bind_range_def)
next
  case (Suc n)
  show ?case
  proof (cases "i = Suc n")
    case True
    then show ?thesis by (simp add: bind_range_def)
  next
    case False
    with Suc.prems have le: "i \<le> n" by simp
    have s: "{i..<Suc n} = insert n {i..<n}" using le by auto
    have "dom (bind_range match names i (Suc n) params) =
        insert (names ! n) (dom (bind_range match names i n params))"
      by (simp only: bind_range_Suc [OF le] dom_fun_upd) simp
    also have "\<dots> = insert (names ! n) (dom params \<union> (\<lambda>j. names ! j) ` {i..<n})"
      by (simp only: Suc.IH [OF le])
    also have "\<dots> = dom params \<union> (\<lambda>j. names ! j) ` {i..<Suc n}"
      by (simp only: s) simp
    finally show ?thesis .
  qed
qed

lemma bind_range_last:
  "i \<le> k \<Longrightarrow> k < n \<Longrightarrow> (\<And>j. k < j \<Longrightarrow> j < n \<Longrightarrow> names ! j \<noteq> names ! k) \<Longrightarrow>
   bind_range match names i n params (names ! k) = Some (match ! k)"
proof (induction n)
  case 0
  then show ?case by simp
next
  case (Suc n)
  from Suc.prems have le: "i \<le> n" by simp
  show ?case
  proof (cases "k = n")
    case True
    then show ?thesis by (simp add: bind_range_Suc [OF le])
  next
    case False
    with Suc.prems have lt: "k < n" by simp
    with Suc.prems have ne: "names ! n \<noteq> names ! k" by simp
    have "bind_range match names i n params (names ! k) = Some (match ! k)"
      using Suc.IH [OF Suc.prems(1) lt] Suc.prems(3) by simp
    with ne show ?thesis by (simp add: bind_range_Suc [OF le])
  qed
qed

lemma card_dom_bind_range:
  "i \<le> n \<Longrightarrow> card (dom (bind_range match names i n Map.empty)) \<le> n - i"
proof -
  assume le: "i \<le> n"
  have "card ((\<lambda>j. names ! j) ` {i..<n}) \<le> card {i..<n}"
    by (rule card_image_le) simp
  with le show ?thesis by (simp add: dom_bind_range)
qed

lemma later_names_differ:
  assumes "names ! i \<notin> set (drop (Suc i) names)" "i < j" "j < length names"
  shows "names ! j \<noteq> names ! i"
proof -
  from assms(2,3) have "drop (Suc i) names ! (j - Suc i) = names ! j"
    and "j - Suc i < length (drop (Suc i) names)" by simp_all
  then have "names ! j \<in> set (drop (Suc i) names)" by (metis nth_mem)
  with assms(1) show ?thesis by auto
qed

text \<open>
  Claim C5. For captured substrings and parameter names of equal length, \<^verbatim>\<open>makeParameters\<close>
  returns a map built from the empty map, whose keys are exactly the names. The name at
  position \<open>i\<close> is bound to the captured value at position \<open>i\<close>, unless the same name occurs
  again at a later position: the last occurrence of a name decides its value.
\<close>

theorem makeParameters_binds:
  assumes "length match = length names"
  shows "\<exists>m. makeParameters match names = Inr m \<and> dom m = set names \<and>
     (\<forall>i < length names. names ! i \<notin> set (drop (Suc i) names) \<longrightarrow> m (names ! i) = Some (match ! i))"
proof -
  let ?m = "bind_range match names 0 (length match) Map.empty"
  have r: "makeParameters match names = Inr ?m"
    using assms by (simp add: makeParameters_def makeParameters_loop_total)
  have "(\<lambda>j. names ! j) ` {0..<length names} = set names"
    by (metis atLeast_upt list.set_map map_nth set_upt)
  then have d: "dom ?m = set names"
    using assms by (simp add: dom_bind_range)
  have "?m (names ! i) = Some (match ! i)"
    if "i < length names" "names ! i \<notin> set (drop (Suc i) names)" for i
    using that assms later_names_differ [OF that(2)] by (intro bind_range_last) auto
  with r d show ?thesis by blast
qed

theorem makeParameters_binds_witness:
  "\<exists>m. makeParameters [''1'', ''2'', ''3''] [''id'', ''name'', ''id''] = Inr m \<and>
     dom m = {''id'', ''name''} \<and> m ''id'' = Some ''3'' \<and> m ''name'' = Some ''2''"
proof -
  have l: "length [''1'', ''2'', ''3''] = length [''id'', ''name'', ''id'']" by simp
  from makeParameters_binds [OF l] obtain m where
    r: "makeParameters [''1'', ''2'', ''3''] [''id'', ''name'', ''id''] = Inr m" and
    d: "dom m = set [''id'', ''name'', ''id'']" and
    b: "\<And>i. i < length [''id'', ''name'', ''id''] \<Longrightarrow>
          [''id'', ''name'', ''id''] ! i \<notin> set (drop (Suc i) [''id'', ''name'', ''id''])
          \<Longrightarrow> m ([''id'', ''name'', ''id''] ! i) = Some ([''1'', ''2'', ''3''] ! i)"
    by blast
  from b [of 2] have "m ''id'' = Some ''3''" by simp
  moreover from b [of 1] have "m ''name'' = Some ''2''" by simp
  ultimately show ?thesis using r d by auto
qed

text \<open>
  Claim C10. When there are at most as many captured substrings as names,
  \<^verbatim>\<open>makeParameters\<close> returns a map, with at most as many keys as captured substrings.
  When there are more captured substrings than names, it panics on the index
  \<^verbatim>\<open>names[i]\<close> and returns no map.
\<close>

theorem makeParameters_total_or_panics:
  "(length match \<le> length names \<longrightarrow>
      (\<exists>m. makeParameters match names = Inr m \<and> finite (dom m) \<and> card (dom m) \<le> length match)) \<and>
   (length names < length match \<longrightarrow> makeParameters match names = Inl OutOfRange)"
proof (intro conjI impI)
  assume le: "length match \<le> length names"
  let ?m = "bind_range match names 0 (length match) Map.empty"
  have "makeParameters match names = Inr ?m"
    using le by (simp add: makeParameters_def makeParameters_loop_total)
  moreover have "card (dom ?m) \<le> length match"
    using card_dom_bind_range [of 0 "length match" match names] by simp
  moreover have "finite (dom ?m)" by (simp add: dom_bind_range)
  ultimately show "\<exists>m. makeParameters match names = Inr m \<and> finite (dom m) \<and> card (dom m) \<le> length match"
    by blast
next
  assume "length names < length match"
  then show "makeParameters match names = Inl OutOfRange"
    by (simp add: makeParameters_def makeParameters_loop_panics)
qed

theorem makeParameters_total_or_panics_witness:
  "(\<exists>m. makeParameters [''33''] [''id'', ''name''] = Inr m \<and> card (dom m) \<le> 1) \<and>
   makeParameters [''33'', ''param''] [''id''] = Inl OutOfRange"
  using makeParameters_total_or_panics [of "[''33'']" "[''id'', ''name'']"]
    makeParameters_total_or_panics [of "[''33'', ''param'']" "[''id'']"]
  by auto

section \<open>A route, compiled and matched\<close>

lemma makeParameters_one: "makeParameters [v] [n] = Inr [n \<mapsto> v]"
  by (simp add: makeParameters_def makeParameters_loop_step makeParameters_loop_stop)

text \<open>
  Claim C7. The template \<^verbatim>\<open>/user/{id}\<close>, compiled as a route, gives the pattern
  \<^verbatim>\<open>^/user/([^/]+)$\<close> with the one name \<^verbatim>\<open>id\<close>. The path \<^verbatim>\<open>/user/42\<close> matches and binds
  exactly \<^verbatim>\<open>id\<close> to \<^verbatim>\<open>42\<close>; the paths \<^verbatim>\<open>/user/42/extra\<close> and \<^verbatim>\<open>/user/\<close> do not match.
\<close>

theorem user_id_route:
  "compileParameters fragment_engine \<lparr>regex = None, parameters = []\<rparr> ''/user/{id}'' True =
     Inr \<lparr>regex = re_compile ''^/user/([^/]+)$'', parameters = [''id'']\<rparr> \<and>
   match_path fragment_engine \<lparr>regex = re_compile ''^/user/([^/]+)$'', parameters = [''id'']\<rparr>
     ''/user/42'' = Some (Inr [''id'' \<mapsto> ''42'']) \<and>
   match_path fragment_engine \<lparr>regex = re_compile ''^/user/([^/]+)$'', parameters = [''id'']\<rparr>
     ''/user/42/extra'' = None \<and>
   match_path fragment_engine \<lparr>regex = re_compile ''^/user/([^/]+)$'', parameters = [''id'']\<rparr>
     ''/user/'' = None"
proof -
  let ?r = "(Cat Bol (Cat (Lit CHR ''/'') (Cat (Lit CHR ''u'') (Cat (Lit CHR ''s'')
      (Cat (Lit CHR ''e'') (Cat (Lit CHR ''r'') (Cat (Lit CHR ''/'')
      (Cat (Group 1 (Plus (Class True [(CHR ''/'', CHR ''/'')]))) Eol))))))), 1 :: nat)"
  have r: "re_compile ''^/user/([^/]+)$'' = Some ?r" by code_simp
  have c: "compileParameters fragment_engine \<lparr>regex = None, parameters = []\<rparr> ''/user/{id}'' True =
     Inr \<lparr>regex = re_compile ''^/user/([^/]+)$'', parameters = [''id'']\<rparr>"
    by code_simp
  have m1: "re_find ?r ''/user/42'' = Some [''/user/42'', ''42'']" by code_simp
  have m2: "re_find ?r ''/user/42/extra'' = None" by code_simp
  have m3: "re_find ?r ''/user/'' = None" by code_simp
  from c m1 m2 m3 show ?thesis
    by (simp add: r match_path_def fragment_engine_def makeParameters_one)
qed

lemma makeParameters_two: "makeParameters [v, w] [n, m] = Inr [n \<mapsto> v, m \<mapsto> w]"
  by (simp add: makeParameters_def makeParameters_loop_step makeParameters_loop_stop)

text \<open>
  The claim C4 as it is written fails in its last part: equal numbers do not align the
  names with the groups. In the template \<^verbatim>\<open>/[{a:x}]{b:(y)}\<close> the literal brackets turn the
  group of \<^verbatim>\<open>a\<close> into members of a bracket expression, and the subpattern of \<^verbatim>\<open>b\<close> brings
  a group of its own: two groups for two names, so the compilation returns. On the path
  \<^verbatim>\<open>/xy\<close> both groups hold \<^verbatim>\<open>y\<close>, and \<^verbatim>\<open>a\<close> is bound to \<^verbatim>\<open>y\<close>, a text that its subpattern
  \<^verbatim>\<open>x\<close> does not match.
\<close>

theorem misaligned_groups_counterexample:
  "compileParameters fragment_engine \<lparr>regex = None, parameters = []\<rparr> ''/[{a:x}]{b:(y)}'' True =
     Inr \<lparr>regex = re_compile ''^/[(x)]((y))$'', parameters = [''a'', ''b'']\<rparr> \<and>
   map_option snd (re_compile ''^/[(x)]((y))$'') = Some 2 \<and>
   match_path fragment_engine \<lparr>regex = re_compile ''^/[(x)]((y))$'', parameters = [''a'', ''b'']\<rparr>
     ''/xy'' = Some (Inr [''a'' \<mapsto> ''y'', ''b'' \<mapsto> ''y'']) \<and>
   map_option (\<lambda>r. re_find r ''y'') (re_compile ''^(x)$'') = Some None"
proof -
  let ?r = "(Cat Bol (Cat (Lit CHR ''/'')
      (Cat (Class False [(CHR ''('', CHR ''(''), (CHR ''x'', CHR ''x''), (CHR '')'', CHR '')'')])
      (Cat (Group 1 (Group 2 (Lit CHR ''y''))) Eol))), 2 :: nat)"
  have r: "re_compile ''^/[(x)]((y))$'' = Some ?r" by code_simp
  have c: "compileParameters fragment_engine \<lparr>regex = None, parameters = []\<rparr> ''/[{a:x}]{b:(y)}'' True =
     Inr \<lparr>regex = re_compile ''^/[(x)]((y))$'', parameters = [''a'', ''b'']\<rparr>"
    by code_simp
  have m: "re_find ?r ''/xy'' = Some [''/xy'', ''y'', ''y'']" by code_simp
  have x: "map_option (\<lambda>r. re_find r ''y'') (re_compile ''^(x)$'') = Some None" by code_simp
  from c m x show ?thesis
    by (simp add: r match_path_def fragment_engine_def makeParameters_two)
qed

section \<open>Templates that compile follow the grammar\<close>

lemma matching_depth:
  assumes "q \<le> c" "c < length s" "\<forall>j \<in> {q..c}. 0 < depth s j" "depth s (Suc c) = 0"
  shows "matching (drop q s) (depth s q) = Some (c - q)"
  using assms
proof (induction "c - q" arbitrary: q)
  case 0
  then have qc: "q = c" by simp
  from 0 have q: "q < length s" by simp
  from "0.prems" qc have pos: "0 < depth s q" and z: "depth s (Suc q) = 0" by simp_all
  from pos z depth_Suc [OF q] have cl: "s ! q = CHR ''}''" and one: "depth s q = 1"
    by (auto simp: brace_delta_def split: if_splits)
  have "drop q s = s ! q # drop (Suc q) s" by (rule Cons_nth_drop_Suc [OF q, symmetric])
  with cl one qc show ?case by simp
next
  case (Suc k)
  then have lt: "q < c" and k: "k = c - Suc q" by simp_all
  with Suc.prems have q: "q < length s" by simp
  have dr: "drop q s = s ! q # drop (Suc q) s" by (rule Cons_nth_drop_Suc [OF q, symmetric])
  from Suc.prems lt have pos: "0 < depth s q" "0 < depth s (Suc q)" by simp_all
  from Suc.prems(3) have rest: "\<forall>j \<in> {Suc q..c}. 0 < depth s j" by simp
  from lt have le: "Suc q \<le> c" by simp
  have IH: "matching (drop (Suc q) s) (depth s (Suc q)) = Some (c - Suc q)"
    by (rule Suc.hyps(1) [OF k le Suc.prems(2) rest Suc.prems(4)])
  from lt have suc: "Suc (c - Suc q) = c - q" by simp
  consider (opn) "s ! q = CHR ''{''" | (cls) "s ! q = CHR ''}''"
    | (other) "s ! q \<noteq> CHR ''{''" "s ! q \<noteq> CHR ''}''" by blast
  then show ?case
  proof cases
    case opn
    with IH depth_open [OF q opn] suc show ?thesis by (simp add: dr)
  next
    case cls
    from pos(2) depth_close [OF q cls] have "depth s q \<noteq> 1" by simp
    with IH depth_close [OF q cls] cls suc show ?thesis by (simp add: dr)
  next
    case other
    with IH depth_other [OF q other] suc show ?thesis by (simp add: dr)
  qed
qed

lemma placeholder_Inr_ok: "placeholder b = Inr np \<Longrightarrow> placeholder_ok b"
  by (auto simp: placeholder_cases placeholder_ok_def group_pattern_def split: if_splits)

lemma check_bodies_ok: "check_bodies bs = Inr nps \<Longrightarrow> \<forall>b \<in> set bs. placeholder_ok b"
proof (induction bs arbitrary: nps)
  case Nil
  then show ?case by simp
next
  case (Cons b bs)
  then obtain np rest where "placeholder b = Inr np" "check_bodies bs = Inr rest"
    by (auto split: sum.splits)
  with Cons.IH show ?case by (auto dest: placeholder_Inr_ok)
qed

lemma opener_starts_pair:
  assumes b: "braceIndices s = Inr idxs" and j: "j < length s" and o: "s ! j = CHR ''{''"
    and d: "depth s j = 0"
  shows "\<exists>c. (j, c) \<in> set (pairs idxs) \<and> first_level_pair s j c"
proof -
  from braceIndices_success_shape(6) [OF b] j o have "covered (pairs idxs) j" by simp
  then obtain opn cls where m: "(opn, cls) \<in> set (pairs idxs)" and r: "opn \<le> j" "j \<le> cls"
    by (auto simp: covered_def)
  from m braceIndices_success_pairs [OF b] have p: "first_level_pair s opn cls" by simp
  then have "\<forall>i \<in> {opn<..cls}. 0 < depth s i" by (simp add: first_level_pair_def)
  with d r have "j = opn" by (metis greaterThanAtMost_iff le_neq_implies_less less_irrefl)
  with m p show ?thesis by auto
qed

lemma nested_template_from:
  assumes b: "braceIndices s = Inr idxs"
    and ok: "\<forall>pr \<in> set (pairs idxs). placeholder_ok (body s pr)"
  shows "e \<le> length s \<Longrightarrow> depth s e = 0 \<Longrightarrow> nested_template (drop e s)"
proof (induction "length s - e" arbitrary: e rule: less_induct)
  case less
  show ?case
  proof (cases "e = length s")
    case True
    then show ?thesis by simp
  next
    case False
    with less.prems have e: "e < length s" by simp
    have dr: "drop e s = s ! e # drop (Suc e) s" by (rule Cons_nth_drop_Suc [OF e, symmetric])
    note nonneg = braceIndices_success_shape(4) [OF b]
    consider (opn) "s ! e = CHR ''{''" | (cls) "s ! e = CHR ''}''"
      | (other) "s ! e \<noteq> CHR ''{''" "s ! e \<noteq> CHR ''}''" by blast
    then show ?thesis
    proof cases
      case other
      from depth_other [OF e other] less.prems have "depth s (Suc e) = 0" by simp
      with e have "nested_template (drop (Suc e) s)" by (intro less.hyps) simp_all
      with other show ?thesis by (simp add: dr)
    next
      case cls
      from depth_close [OF e cls] less.prems have "depth s (Suc e) < 0" by simp
      moreover from nonneg e have "0 \<le> depth s (Suc e)" by simp
      ultimately show ?thesis by simp
    next
      case opn
      from opener_starts_pair [OF b e opn less.prems(2)] obtain c where
        m: "(e, c) \<in> set (pairs idxs)" and p: "first_level_pair s e c" by blast
      from p have ec: "e < c" and c: "c < length s" and z: "depth s (Suc c) = 0"
        and pos: "\<forall>j \<in> {e<..c}. 0 < depth s j"
        by (simp_all add: first_level_pair_def)
      from pos have pos': "\<forall>j \<in> {Suc e..c}. 0 < depth s j" by simp
      from ec have le: "Suc e \<le> c" by simp
      from depth_open [OF e opn] less.prems have one: "depth s (Suc e) = 1" by simp
      from matching_depth [OF le c pos' z] one
      have mt: "matching (drop (Suc e) s) 1 = Some (c - Suc e)" by simp
      from ok m have bd: "placeholder_ok (take (c - Suc e) (drop (Suc e) s))"
        by (auto simp: body_def)
      from le have "drop (Suc (c - Suc e)) (drop (Suc e) s) = drop (Suc c) s" by simp
      moreover from c ec z have "nested_template (drop (Suc c) s)"
        by (intro less.hyps) simp_all
      ultimately show ?thesis using opn mt bd by (simp add: dr)
    qed
  qed
qed

text \<open>
  Claim C8, as amended. A template compiles only if it is a sequence of literals without
  braces and of placeholders, where a placeholder runs from an opening brace to the
  closing brace that matches it, and its body has a name that is not empty and, after a
  colon, a subpattern that is not empty. Braces inside the body of a placeholder are
  accepted when they are balanced; every other brace makes the compilation fail.
\<close>

theorem compileParameters_template_grammar:
  assumes "compileParameters eng p uri ends = Inr p'"
  shows "nested_template uri"
proof -
  from assms obtain idxs nps where
    b: "braceIndices uri = Inr idxs" and
    c: "check_bodies (map (body uri) (pairs idxs)) = Inr nps"
    by (rule compileParameters_Inr)
  from check_bodies_ok [OF c] have "\<forall>pr \<in> set (pairs idxs). placeholder_ok (body uri pr)"
    by simp
  from nested_template_from [OF b this, of 0] show ?thesis by simp
qed

theorem compileParameters_template_grammar_witness:
  "nested_template ''/user/{id:[0-9]+}/{name}''"
proof -
  have "compileParameters fragment_engine \<lparr>regex = None, parameters = []\<rparr>
      ''/user/{id:[0-9]+}/{name}'' True =
    Inr \<lparr>regex = re_compile ''^/user/([0-9]+)/([^/]+)$'', parameters = [''id'', ''name'']\<rparr>"
    by code_simp
  then show ?thesis by (rule compileParameters_template_grammar)
qed

text \<open>
  The claim C8 as it is written fails on its own example: the template \<^verbatim>\<open>/{{a}}\<close> is
  outside the grammar of the specification, and it compiles, with the parameter name
  \<^verbatim>\<open>{a}\<close>.
\<close>

theorem nested_braces_counterexample:
  "\<not> spec_template ''/{{a}}'' \<and>
   braceIndices ''/{{a}}'' = Inr [1, 5] \<and>
   buildPattern [] ''/{{a}}'' True = Inr ([1, 5], ''^/([^/]+)$'', [''{a}'']) \<and>
   compileParameters fragment_engine \<lparr>regex = None, parameters = []\<rparr> ''/{{a}}'' True =
     Inr \<lparr>regex = Some (Cat Bol (Cat (Lit CHR ''/'')
              (Cat (Group 1 (Plus (Class True [(CHR ''/'', CHR ''/'')]))) Eol)), 1),
          parameters = [''{a}'']\<rparr>"
proof -
  have "\<not> spec_template ''/{{a}}''" by (simp add: placeholder_ok_def param_name_def)
  moreover have "braceIndices ''/{{a}}'' = Inr [1, 5]" by code_simp
  moreover have "buildPattern [] ''/{{a}}'' True = Inr ([1, 5], ''^/([^/]+)$'', [''{a}''])"
    by code_simp
  moreover have "compileParameters fragment_engine \<lparr>regex = None, parameters = []\<rparr> ''/{{a}}'' True =
     Inr \<lparr>regex = Some (Cat Bol (Cat (Lit CHR ''/'')
              (Cat (Group 1 (Plus (Class True [(CHR ''/'', CHR ''/'')]))) Eol)), 1),
          parameters = [''{a}'']\<rparr>"
    by code_simp
  ultimately show ?thesis by simp
qed

end
